theory Spec2Isabelle
  imports Complex_Main "HOL-Library.AList" "HOL-Library.Sublist"
begin

section \<open>Numbers and optional fields\<close>

text \<open>
  A JavaScript number is modelled as a real; the one non-finite value the code
  itself writes down, \<^verbatim>\<open>Infinity\<close> (the unset running minimum of the label
  correction), is a constructor of its own. An optional field \<^verbatim>\<open>f?: T\<close> is
  \<open>T option\<close>, with \<open>None\<close> for \<^verbatim>\<open>undefined\<close>. Rounding and NaN are not
  modelled.
\<close>

datatype jsnum = Fin real | Infinity

text \<open>\<^verbatim>\<open>!v\<close> on an optional number: true for \<^verbatim>\<open>undefined\<close> and for \<^verbatim>\<open>0\<close>.\<close>

definition falsy :: "real option \<Rightarrow> bool" where
  "falsy v = (case v of None \<Rightarrow> True | Some r \<Rightarrow> r = 0)"

section \<open>ELKEdge: the edge component\<close>

record point =
  pt_x :: real
  pt_y :: real

record edge_label =
  label_text :: "string option"
  label_x :: "real option"
  label_y :: "real option"
  label_width :: "real option"

text \<open>\<^verbatim>\<open>ElkEdgeSection\<close>: the bend points are optional (\<^verbatim>\<open>section.bendPoints ?? []\<close>).\<close>

record edge_section =
  startPoint :: point
  bendPoints :: "point list option"
  endPoint :: point

record 'ev ELKEdgeData =
  originalSourceId :: string
  originalTargetId :: string
  label :: edge_label
  data_section :: "edge_section option"
  events :: "'ev list"
  eventChainHovered :: "bool option"

definition ISSUE_BADGE_SIZE :: real where
  "ISSUE_BADGE_SIZE = 26"

text \<open>
  \<^verbatim>\<open>edgeClassName(selected = false, eventChainHovered = false)\<close>: the classes
  pushed, in order (the source joins them with a blank).
\<close>

definition edgeClassName :: "bool option \<Rightarrow> bool option \<Rightarrow> string list" where
  "edgeClassName selected_opt hovered_opt =
     (let selected = (case selected_opt of None \<Rightarrow> False | Some b \<Rightarrow> b);
          hov = (case hovered_opt of None \<Rightarrow> False | Some b \<Rightarrow> b)
      in (if \<not> hov \<and> \<not> selected then [''opacity-40''] else [])
         @ (if hov then [''stroke-hover'', ''stroke-[2px]'']
            else [''stroke-foreground'', ''dark:stroke-primary''])
         @ (if selected
            then [''stroke-primary'', ''stroke-[2px]'', ''opacity-80'']
                 @ (if hov then [''stroke-[3px]'', ''opacity-100''] else [])
            else []))"

subsection \<open>calculateClosestPathMidpoint\<close>

text \<open>
  The test of the loop body: the pair \<open>(start, end)\<close> spans \<^verbatim>\<open>label.x\<close> or
  \<^verbatim>\<open>label.x + label.width\<close>.
\<close>

definition covers :: "real \<Rightarrow> real \<Rightarrow> point \<Rightarrow> point \<Rightarrow> bool" where
  "covers lx lw start end_pt =
     ((pt_x start \<le> lx \<and> pt_x end_pt \<ge> lx) \<or>
      (pt_x start \<le> lx + lw \<and> pt_x end_pt \<ge> lx + lw))"

text \<open>
  \<^verbatim>\<open>Math.abs(v - label.y) < Math.abs(closestPathYToLabel - label.y)\<close>; the
  right-hand side is \<^verbatim>\<open>Infinity\<close> while the running minimum is unset.
\<close>

fun closer :: "real \<Rightarrow> real \<Rightarrow> jsnum \<Rightarrow> bool" where
  "closer ly v Infinity = True"
| "closer ly v (Fin c) = (\<bar>v - ly\<bar> < \<bar>c - ly\<bar>)"

text \<open>The \<^verbatim>\<open>for\<close> loop over \<^verbatim>\<open>i < points.length - 1\<close>, as recursion on the list.\<close>

fun closest_scan :: "real \<Rightarrow> real \<Rightarrow> real \<Rightarrow> point list \<Rightarrow> jsnum \<Rightarrow> jsnum" where
  "closest_scan lx ly lw (start # end_pt # rest) closest =
     (if covers lx lw start end_pt
      then (let c1 = (if closer ly (pt_y start) closest then Fin (pt_y start) else closest);
                c2 = (if closer ly (pt_y end_pt) c1 then Fin (pt_y end_pt) else c1)
            in closest_scan lx ly lw (end_pt # rest) c2)
      else closest_scan lx ly lw (end_pt # rest) closest)"
| "closest_scan lx ly lw [p] closest = closest"
| "closest_scan lx ly lw [] closest = closest"

text \<open>The result is \<open>None\<close> when the guard returns an absent \<^verbatim>\<open>label.y\<close>.\<close>

definition calculateClosestPathMidpoint :: "edge_label \<Rightarrow> point list \<Rightarrow> jsnum option" where
  "calculateClosestPathMidpoint l points =
     (if falsy (label_x l) \<or> falsy (label_y l) \<or> falsy (label_width l)
      then map_option Fin (label_y l)
      else Some (closest_scan (the (label_x l)) (the (label_y l)) (the (label_width l))
                   points Infinity))"

subsection \<open>The component\<close>

text \<open>
  The path string is \<^verbatim>\<open>M x y\<close> followed by one \<^verbatim>\<open>L x y\<close> per further vertex,
  joined by blanks; it is modelled as the list of its commands, with the numbers
  not yet printed.
\<close>

datatype path_cmd = MoveTo real real | LineTo real real

fun cmd_vertex :: "path_cmd \<Rightarrow> point" where
  "cmd_vertex (MoveTo a b) = \<lparr>pt_x = a, pt_y = b\<rparr>"
| "cmd_vertex (LineTo a b) = \<lparr>pt_x = a, pt_y = b\<rparr>"

definition path_vertices :: "path_cmd list \<Rightarrow> point list" where
  "path_vertices cmds = map cmd_vertex cmds"

definition line_to :: "point \<Rightarrow> path_cmd" where
  "line_to p = LineTo (pt_x p) (pt_y p)"

record 'ev edge_props =
  props_id :: string
  props_selected :: "bool option"
  props_data :: "'ev ELKEdgeData option"
  props_markerEnd :: "string option"

text \<open>
  What the component returns when it does not return \<^verbatim>\<open>null\<close>: the
  \<^verbatim>\<open>BaseEdge\<close> with its class names and path, and the label with the two
  translations of its transform.
\<close>

record rendering =
  base_id :: string
  base_className :: "string list"
  base_path :: "path_cmd list"
  base_markerEnd :: "string option"
  label_translate_x :: "real option"
  label_translate_y :: "jsnum option"
  label_content :: "string option"

definition bend_list :: "edge_section \<Rightarrow> point list" where
  "bend_list sec = (case bendPoints sec of None \<Rightarrow> [] | Some bs \<Rightarrow> bs)"

definition ELKEdge :: "'ev edge_props \<Rightarrow> rendering option" where
  "ELKEdge props =
     (case props_data props of
        None \<Rightarrow> None
      | Some d \<Rightarrow>
         (case data_section d of
            None \<Rightarrow> None
          | Some sec \<Rightarrow>
             (let segments =
                    [MoveTo (pt_x (startPoint sec) - ISSUE_BADGE_SIZE / 2) (pt_y (startPoint sec))]
                    @ map line_to (bend_list sec)
                    @ [line_to (endPoint sec)];
                  points = [startPoint sec] @ bend_list sec @ [endPoint sec]
              in Some \<lparr>base_id = props_id props,
                        base_className = edgeClassName (props_selected props) (eventChainHovered d),
                        base_path = segments,
                        base_markerEnd = props_markerEnd props,
                        label_translate_x = label_x (label d),
                        label_translate_y = calculateClosestPathMidpoint (label d) points,
                        label_content = label_text (label d)\<rparr>)))"

section \<open>QueryGraph: the drag-click handler\<close>

text \<open>
  The event handed to \<^verbatim>\<open>OnMove\<close> may be \<^verbatim>\<open>null\<close>; otherwise the handler
  reads its type and, for the three mouse types, its client coordinates.
\<close>

record mouse_event =
  ev_type :: string
  clientX :: real
  clientY :: real

text \<open>
  The two \<^verbatim>\<open>let\<close> variables declared at the top level of the module, outside every
  component: \<^verbatim>\<open>lastMouseCoords\<close> (initially \<^verbatim>\<open>undefined\<close>) and
  \<^verbatim>\<open>distanceMoved\<close> (initially 0).
\<close>

record module_vars =
  lastMouseCoords :: "point option"
  distanceMoved :: real

definition initial_vars :: module_vars where
  "initial_vars = \<lparr>lastMouseCoords = None, distanceMoved = 0\<rparr>"

text \<open>
  A dispatched synthetic \<^verbatim>\<open>click\<close> (bubbling, cancelable): its target element and
  its client coordinates.
\<close>

datatype 'el dispatched = Click 'el real real

text \<open>
  \<^verbatim>\<open>document.elementFromPoint\<close> is the host's hit test, a parameter here. The
  handler returns the updated module variables and the events it dispatched.
\<close>

definition dragClickHandler ::
  "(real \<Rightarrow> real \<Rightarrow> 'el option) \<Rightarrow> mouse_event option \<Rightarrow> module_vars
     \<Rightarrow> module_vars \<times> 'el dispatched list" where
  "dragClickHandler elementFromPoint event vars =
     (case event of
        None \<Rightarrow> (vars, [])
      | Some e \<Rightarrow>
         if ev_type e = ''mousedown''
         then (\<lparr>lastMouseCoords = Some \<lparr>pt_x = clientX e, pt_y = clientY e\<rparr>,
                 distanceMoved = 0\<rparr>, [])
         else if ev_type e = ''mousemove'' \<or> ev_type e = ''mouseup''
         then (case lastMouseCoords vars of
                 None \<Rightarrow> (vars, [])
               | Some prev \<Rightarrow>
                  (let dx = clientX e - pt_x prev;
                       dy = clientY e - pt_y prev;
                       moved = distanceMoved vars + sqrt (dx * dx + dy * dy);
                       vars1 = \<lparr>lastMouseCoords = Some \<lparr>pt_x = clientX e, pt_y = clientY e\<rparr>,
                                distanceMoved = moved\<rparr>
                   in if ev_type e = ''mouseup''
                      then (\<lparr>lastMouseCoords = None, distanceMoved = 0\<rparr>,
                            if moved < 5
                            then (case elementFromPoint (clientX e) (clientY e) of
                                    None \<Rightarrow> []
                                  | Some element \<Rightarrow> [Click element (clientX e) (clientY e)])
                            else [])
                      else (vars1, [])))
         else (vars, []))"

text \<open>A sequence of events handled one after the other, collecting the dispatched clicks.\<close>

fun handle_all ::
  "(real \<Rightarrow> real \<Rightarrow> 'el option) \<Rightarrow> mouse_event option list \<Rightarrow> module_vars
     \<Rightarrow> module_vars \<times> 'el dispatched list" where
  "handle_all efp [] vars = (vars, [])"
| "handle_all efp (e # es) vars =
     (let (vars1, out1) = dragClickHandler efp e vars;
          (vars2, out2) = handle_all efp es vars1
      in (vars2, out1 @ out2))"

definition mouse :: "string \<Rightarrow> point \<Rightarrow> mouse_event option" where
  "mouse ty p = Some \<lparr>ev_type = ty, clientX = pt_x p, clientY = pt_y p\<rparr>"

text \<open>
  One gesture as the canvas reports it: the press, the moves, the release.
\<close>

definition gesture :: "point \<Rightarrow> point list \<Rightarrow> point \<Rightarrow> mouse_event option list" where
  "gesture p0 ps q = mouse ''mousedown'' p0 # map (mouse ''mousemove'') ps @ [mouse ''mouseup'' q]"

definition distance :: "point \<Rightarrow> point \<Rightarrow> real" where
  "distance a b = sqrt ((pt_x b - pt_x a) * (pt_x b - pt_x a) + (pt_y b - pt_y a) * (pt_y b - pt_y a))"

text \<open>The Euclidean length of the polyline through the given positions.\<close>

fun travelled :: "point list \<Rightarrow> real" where
  "travelled (a # b # rest) = distance a b + travelled (b # rest)"
| "travelled [a] = 0"
| "travelled [] = 0"

subsection \<open>Mounted canvases\<close>

text \<open>
  Every mounted \<^verbatim>\<open>Inner\<close> passes the same \<^verbatim>\<open>dragClickHandler\<close> as its
  \<^verbatim>\<open>onMoveStart\<close>, \<^verbatim>\<open>onMove\<close> and \<^verbatim>\<open>onMoveEnd\<close>, so all of them read and write
  the one pair of module variables. The hovered-edge set is \<^verbatim>\<open>React.useState\<close> of the
  component: one per mounted canvas. Canvases are numbered; a \<^verbatim>\<open>Set\<close> is the list of
  its members in insertion order.
\<close>

record page =
  vars :: module_vars
  hoveredEdges :: "nat \<Rightarrow> string list"

definition initial_page :: page where
  "initial_page = \<lparr>vars = initial_vars, hoveredEdges = (\<lambda>c. [])\<rparr>"

definition onMove ::
  "(real \<Rightarrow> real \<Rightarrow> 'el option) \<Rightarrow> nat \<Rightarrow> mouse_event option \<Rightarrow> page
     \<Rightarrow> page \<times> 'el dispatched list" where
  "onMove efp canvas event pg =
     (let (vars1, out) = dragClickHandler efp event (vars pg) in (pg\<lparr>vars := vars1\<rparr>, out))"

text \<open>The state the handler of a given canvas works on.\<close>

definition classifier_state :: "nat \<Rightarrow> page \<Rightarrow> module_vars" where
  "classifier_state canvas pg = vars pg"

definition handleEdgeHover :: "string \<Rightarrow> string \<Rightarrow> string list \<Rightarrow> string list" where
  "handleEdgeHover event_type edge prev =
     (if event_type = ''mouseenter''
      then (if edge \<in> set prev then prev else prev @ [edge])
      else removeAll edge prev)"

definition onEdgeMouse :: "nat \<Rightarrow> string \<Rightarrow> string \<Rightarrow> page \<Rightarrow> page" where
  "onEdgeMouse canvas event_type edge pg =
     pg\<lparr>hoveredEdges := (hoveredEdges pg)(canvas := handleEdgeHover event_type edge (hoveredEdges pg canvas))\<rparr>"

section \<open>QueryGraph: event-chain highlighting\<close>

text \<open>
  An edge of the canvas library: its \<^verbatim>\<open>data\<close> is optional. \<^verbatim>\<open>Links\<close> holds the
  one-hop neighbours of an edge.
\<close>

record 'ev Edge =
  edge_id :: string
  edge_source :: string
  edge_target :: string
  edge_selected :: "bool option"
  edge_data :: "'ev ELKEdgeData option"

record Links =
  preceding :: "string list"
  following :: "string list"

text \<open>
  \<^verbatim>\<open>edges\<close> is a \<^verbatim>\<open>Record\<close>: an association list in the object's own key order,
  read with \<open>map_of\<close>; an assignment to a key replaces the entry in place
  (\<open>AList.update\<close>, which would append a key not present). \<^verbatim>\<open>eventChainLinks\<close>
  is only ever looked up and is a map.
\<close>

definition with_hovered :: "'ev Edge \<Rightarrow> 'ev ELKEdgeData \<Rightarrow> 'ev Edge" where
  "with_hovered edge d = edge\<lparr>edge_data := Some (d\<lparr>eventChainHovered := Some True\<rparr>)\<rparr>"

text \<open>The inner loop over \<^verbatim>\<open>eventChainEdgeIds\<close>.\<close>

fun mark_chain ::
  "(string \<times> 'ev Edge) list \<Rightarrow> string list \<Rightarrow> (string \<times> 'ev Edge) list
     \<Rightarrow> (string \<times> 'ev Edge) list" where
  "mark_chain edges [] edgesWithHovered = edgesWithHovered"
| "mark_chain edges (eventChainEdgeId # rest) edgesWithHovered =
     (case map_of edges eventChainEdgeId of
        None \<Rightarrow> mark_chain edges rest edgesWithHovered
      | Some edge \<Rightarrow>
         (case edge_data edge of
            None \<Rightarrow> mark_chain edges rest edgesWithHovered
          | Some d \<Rightarrow>
             mark_chain edges rest
               (AList.update eventChainEdgeId (with_hovered edge d) edgesWithHovered)))"

text \<open>The body of the outer loop, for one hovered id.\<close>

definition hover_step ::
  "(string \<times> 'ev Edge) list \<Rightarrow> (string \<rightharpoonup> Links) \<Rightarrow> string
     \<Rightarrow> (string \<times> 'ev Edge) list \<Rightarrow> (string \<times> 'ev Edge) list" where
  "hover_step edges eventChainLinks edgeId edgesWithHovered =
     (case eventChainLinks edgeId of
        None \<Rightarrow> edgesWithHovered
      | Some edgeEventChainLinks \<Rightarrow>
         mark_chain edges
           ([edgeId] @ preceding edgeEventChainLinks @ following edgeEventChainLinks)
           edgesWithHovered)"

text \<open>The object \<^verbatim>\<open>edgesWithHovered\<close> once the outer loop is done.\<close>

definition edgesWithHovered ::
  "string list \<Rightarrow> (string \<times> 'ev Edge) list \<Rightarrow> (string \<rightharpoonup> Links)
     \<Rightarrow> (string \<times> 'ev Edge) list" where
  "edgesWithHovered hovered edges eventChainLinks =
     fold (hover_step edges eventChainLinks) hovered edges"

text \<open>The memoised \<^verbatim>\<open>edgesArray\<close>; \<^verbatim>\<open>Object.values\<close> is \<open>map snd\<close>.\<close>

definition edgesArray ::
  "string list \<Rightarrow> (string \<times> 'ev Edge) list \<Rightarrow> (string \<rightharpoonup> Links) \<Rightarrow> 'ev Edge list" where
  "edgesArray hovered edges eventChainLinks =
     (if length hovered = 0 then map snd edges
      else map snd (edgesWithHovered hovered edges eventChainLinks))"

text \<open>
  The ids a hovered set reaches: each hovered id that has a link entry, with the
  ids that entry lists.
\<close>

definition link_ids :: "(string \<rightharpoonup> Links) \<Rightarrow> string \<Rightarrow> string set" where
  "link_ids eventChainLinks h =
     (case eventChainLinks h of
        None \<Rightarrow> {}
      | Some l \<Rightarrow> insert h (set (preceding l) \<union> set (following l)))"

definition chain_ids :: "(string \<rightharpoonup> Links) \<Rightarrow> string list \<Rightarrow> string set" where
  "chain_ids eventChainLinks hovered = (\<Union>h \<in> set hovered. link_ids eventChainLinks h)"

text \<open>The flag as the edge component reads it.\<close>

definition hovered_flag :: "'ev Edge \<Rightarrow> bool option" where
  "hovered_flag edge = (case edge_data edge of None \<Rightarrow> None | Some d \<Rightarrow> eventChainHovered d)"

text \<open>What becomes of one entry of the edge map.\<close>

definition highlighted :: "string set \<Rightarrow> string \<times> 'ev Edge \<Rightarrow> 'ev Edge" where
  "highlighted ids entry =
     (case edge_data (snd entry) of
        None \<Rightarrow> snd entry
      | Some d \<Rightarrow> if fst entry \<in> ids then with_hovered (snd entry) d else snd entry)"

section \<open>QueryGraph: the highlighting and the objects it builds\<close>

text \<open>
  Whether the memo hands back an object it was given or one it has built is a
  matter of references, so here the same code is read over an explicit store. An
  address is the position of an object in the store; a new object goes to the end
  and no object is ever removed. The store holds the \<^verbatim>\<open>edges\<close> record and its
  spread copy (each key with the address of its edge), arrays (the addresses of
  their elements), edge objects (their \<^verbatim>\<open>data\<close> field is the address of the data
  object, or absent) and data objects.
\<close>

datatype 'ev obj =
    Rec "(string \<times> nat) list"
  | Arr "nat list"
  | EdgeO string string string "bool option" "nat option"
  | DataO "'ev ELKEdgeData"

type_synonym 'ev store = "'ev obj list"

definition alloc :: "'ev obj \<Rightarrow> 'ev store \<Rightarrow> nat \<times> 'ev store" where
  "alloc ob h = (length h, h @ [ob])"

definition lookup :: "'ev store \<Rightarrow> nat \<Rightarrow> 'ev obj option" where
  "lookup h a = (if a < length h then Some (h ! a) else None)"

text \<open>The own properties of the record at an address (none if there is no record).\<close>

definition entries_of :: "'ev store \<Rightarrow> nat \<Rightarrow> (string \<times> nat) list" where
  "entries_of h a = (case lookup h a of Some (Rec es) \<Rightarrow> es | _ \<Rightarrow> [])"

text \<open>
  The inner loop: \<^verbatim>\<open>edges[eventChainEdgeId]\<close> is read from the record given,
  \<^verbatim>\<open>{ ...edge.data, eventChainHovered: true }\<close> and \<^verbatim>\<open>{ ...edge, data: ... }\<close> are
  two new objects (the data object is placed first, so that the edge object can
  hold its address), and the assignment goes to the spread copy.
\<close>

fun mark_chain_store :: "nat \<Rightarrow> nat \<Rightarrow> string list \<Rightarrow> 'ev store \<Rightarrow> 'ev store" where
  "mark_chain_store edges copy [] h = h"
| "mark_chain_store edges copy (eventChainEdgeId # rest) h =
     (case map_of (entries_of h edges) eventChainEdgeId of
        None \<Rightarrow> mark_chain_store edges copy rest h
      | Some edge \<Rightarrow>
         (case lookup h edge of
            Some (EdgeO i src tgt sel (Some data_ref)) \<Rightarrow>
              (case lookup h data_ref of
                 Some (DataO d) \<Rightarrow>
                   (case alloc (DataO (d\<lparr>eventChainHovered := Some True\<rparr>)) h of
                      (new_data, h1) \<Rightarrow>
                        (case alloc (EdgeO i src tgt sel (Some new_data)) h1 of
                           (new_edge, h2) \<Rightarrow>
                             mark_chain_store edges copy rest
                               (h2[copy := Rec (AList.update eventChainEdgeId new_edge
                                                  (entries_of h2 copy))])))
               | _ \<Rightarrow> mark_chain_store edges copy rest h)
          | _ \<Rightarrow> mark_chain_store edges copy rest h))"

definition hover_step_store ::
  "nat \<Rightarrow> nat \<Rightarrow> (string \<rightharpoonup> Links) \<Rightarrow> string \<Rightarrow> 'ev store \<Rightarrow> 'ev store" where
  "hover_step_store edges copy eventChainLinks edgeId h =
     (case eventChainLinks edgeId of
        None \<Rightarrow> h
      | Some edgeEventChainLinks \<Rightarrow>
         mark_chain_store edges copy
           ([edgeId] @ preceding edgeEventChainLinks @ following edgeEventChainLinks) h)"

text \<open>
  The memo over the store: \<^verbatim>\<open>edges\<close> is the address of the record; the result is
  the address of the array returned and the store after the call.
  \<^verbatim>\<open>Object.values\<close> builds a new array, \<^verbatim>\<open>{ ...edges }\<close> a new record.
\<close>

definition edgesArray_store ::
  "string list \<Rightarrow> nat \<Rightarrow> (string \<rightharpoonup> Links) \<Rightarrow> 'ev store \<Rightarrow> nat \<times> 'ev store" where
  "edgesArray_store hovered edges eventChainLinks h =
     (if length hovered = 0 then alloc (Arr (map snd (entries_of h edges))) h
      else (case alloc (Rec (entries_of h edges)) h of
              (copy, h1) \<Rightarrow>
                (let h2 = fold (hover_step_store edges copy eventChainLinks) hovered h1
                 in alloc (Arr (map snd (entries_of h2 copy))) h2)))"

text \<open>The edge an address stands for, with its data read through.\<close>

definition edge_value :: "'ev store \<Rightarrow> nat \<Rightarrow> 'ev Edge option" where
  "edge_value h a =
     (case lookup h a of
        Some (EdgeO i src tgt sel None) \<Rightarrow>
          Some \<lparr>edge_id = i, edge_source = src, edge_target = tgt, edge_selected = sel,
                edge_data = None\<rparr>
      | Some (EdgeO i src tgt sel (Some data_ref)) \<Rightarrow>
          (case lookup h data_ref of
             Some (DataO d) \<Rightarrow>
               Some \<lparr>edge_id = i, edge_source = src, edge_target = tgt, edge_selected = sel,
                     edge_data = Some d\<rparr>
           | _ \<Rightarrow> None)
      | _ \<Rightarrow> None)"

section \<open>Selection changes and the issue badge\<close>

text \<open>
  A resource id is the list of its \<^verbatim>\<open>{type, id}\<close> parts, root first.
  \<^verbatim>\<open>typeIdFromResourceId\<close> is imported from a module that is not part of the
  sources at hand; it is a parameter of the functions that call it.
\<close>

type_synonym ResourceId = "(string \<times> string) list"

record ResourceEnvironmentData =
  env_name :: string
  colorIndex :: int
  inheritedFrom :: "ResourceId option"

record ResourceNodeData =
  data_id :: ResourceId
  numChildren :: int
  collapsed :: bool
  environments :: "ResourceEnvironmentData list"
  resourceIssueIds :: "string list"
  originalParentId :: "string option"
  parentResourceId :: "ResourceId option"
  data_highlighted :: "bool option"

record Node =
  node_id :: string
  node_data :: ResourceNodeData

text \<open>The actions dispatched by the functions modelled here, with their payload.\<close>

datatype action =
    SelectResource string bool
  | DeselectResource string
  | SelectIssue string bool

text \<open>
  What a handler does to the outside, in the order it does it: a telemetry capture
  (event name and properties), a dispatched action, a navigation (always with
  \<^verbatim>\<open>replace: true, relative: 'path'\<close>).
\<close>

datatype effect =
    Capture string "(string \<times> string) list"
  | Dispatch action
  | Navigate string

text \<open>A change of the canvas library: a selection change, or one of another type.\<close>

datatype NodeChange = SelectChange string bool | OtherChange string

fun is_select :: "NodeChange \<Rightarrow> bool" where
  "is_select (SelectChange i b) = True"
| "is_select (OtherChange ty) = False"

datatype js_error = TypeError

text \<open>
  The loop of \<^verbatim>\<open>onNodesChange\<close> over the selection changes.
  \<^verbatim>\<open>nodes[change.id].data.id\<close> throws a \<^verbatim>\<open>TypeError\<close> when the id is not a key of
  \<^verbatim>\<open>nodes\<close>; the effects up to there have happened, the rest of the batch is
  lost. The result is the effects and the error, if any.
\<close>

fun select_loop ::
  "(ResourceId \<Rightarrow> string) \<Rightarrow> (string \<rightharpoonup> Node) \<Rightarrow> NodeChange list
     \<Rightarrow> effect list \<times> js_error option" where
  "select_loop typeIdFromResourceId nodes [] = ([], None)"
| "select_loop typeIdFromResourceId nodes (OtherChange ty # rest) =
     select_loop typeIdFromResourceId nodes rest"
| "select_loop typeIdFromResourceId nodes (SelectChange i sel # rest) =
     (case nodes i of
        None \<Rightarrow> ([], Some TypeError)
      | Some node \<Rightarrow>
         (let (effs, err) = select_loop typeIdFromResourceId nodes rest;
              resource_type = typeIdFromResourceId (data_id (node_data node))
          in if sel
             then ([Capture ''graph_resource_selected'' [(''resource_type'', resource_type)],
                    Dispatch (SelectResource i False)] @ effs, err)
             else ([Capture ''graph_resource_deselected'' [(''resource_type'', resource_type)],
                    Dispatch (DeselectResource i)] @ effs, err)))"

definition onNodesChange ::
  "(ResourceId \<Rightarrow> string) \<Rightarrow> (string \<rightharpoonup> Node) \<Rightarrow> NodeChange list
     \<Rightarrow> effect list \<times> js_error option" where
  "onNodesChange typeIdFromResourceId nodes nodeChanges =
     select_loop typeIdFromResourceId nodes (filter is_select nodeChanges)"

text \<open>The actions among the effects, in order.\<close>

fun actions_of :: "effect list \<Rightarrow> action list" where
  "actions_of [] = []"
| "actions_of (Dispatch a # rest) = a # actions_of rest"
| "actions_of (e # rest) = actions_of rest"

fun navigations_of :: "effect list \<Rightarrow> string list" where
  "navigations_of [] = []"
| "navigations_of (Navigate t # rest) = t # navigations_of rest"
| "navigations_of (e # rest) = navigations_of rest"

text \<open>
  \<^verbatim>\<open>selectResourceIssues\<close> of the resource node; \<^verbatim>\<open>location.pathname\<close> is a
  parameter, \<^verbatim>\<open>endsWith\<close> is \<open>suffix\<close>.
\<close>

definition selectResourceIssues ::
  "(ResourceId \<Rightarrow> string) \<Rightarrow> string \<Rightarrow> ResourceNodeData \<Rightarrow> effect list" where
  "selectResourceIssues typeIdFromResourceId pathname d =
     [Capture ''resource_node_issue_badge_clicked''
        [(''resource_type'', typeIdFromResourceId (data_id d))]]
     @ (if suffix ''/events'' pathname then [Navigate ''../issues'']
        else if \<not> suffix ''/issues'' pathname then [Navigate ''./issues'']
        else [])
     @ map (\<lambda>issueId. Dispatch (SelectIssue issueId False)) (resourceIssueIds d)"

section \<open>Auxiliary notions for the statements\<close>

text \<open>
  Between gestures the module variables are at rest: no stored position goes with
  no accumulated distance.
\<close>

definition settled :: "module_vars \<Rightarrow> bool" where
  "settled v = (lastMouseCoords v = None \<longrightarrow> distanceMoved v = 0)"

text \<open>The copy the inner loop writes for an id, if it writes one.\<close>

definition marked :: "(string \<times> 'ev Edge) list \<Rightarrow> string \<Rightarrow> 'ev Edge option" where
  "marked edges k =
     (case map_of edges k of
        None \<Rightarrow> None
      | Some e \<Rightarrow> (case edge_data e of None \<Rightarrow> None | Some d \<Rightarrow> Some (with_hovered e d)))"

text \<open>
  What one change of a batch is expected to emit: for a selection change of a
  known node the telemetry capture and then the action, for any other change
  nothing.
\<close>

fun change_effects ::
  "(ResourceId \<Rightarrow> string) \<Rightarrow> (string \<rightharpoonup> Node) \<Rightarrow> NodeChange \<Rightarrow> effect list" where
  "change_effects ty nodes (OtherChange t) = []"
| "change_effects ty nodes (SelectChange i sel) =
     (case nodes i of
        None \<Rightarrow> []
      | Some node \<Rightarrow>
          [Capture (if sel then ''graph_resource_selected'' else ''graph_resource_deselected'')
             [(''resource_type'', ty (data_id (node_data node)))],
           Dispatch (if sel then SelectResource i False else DeselectResource i)])"

fun change_action :: "NodeChange \<Rightarrow> action list" where
  "change_action (OtherChange t) = []"
| "change_action (SelectChange i sel) =
     [if sel then SelectResource i False else DeselectResource i]"

text \<open>A change is known when it is no selection change or names a key of the node map.\<close>

fun known :: "(string \<rightharpoonup> Node) \<Rightarrow> NodeChange \<Rightarrow> bool" where
  "known nodes (OtherChange t) = True"
| "known nodes (SelectChange i sel) = (nodes i \<noteq> None)"

text \<open>
  Reading the store back: the edge map a record of addresses stands for; one store
  extending another (records stay records, every other object stays as it is); and
  the store of the loop against the value of the loop, where \<open>h0\<close> is the store at
  the call and the spread copy sits right behind it.
\<close>

definition abs_entries :: "'ev store \<Rightarrow> (string \<times> nat) list \<Rightarrow> (string \<times> 'ev Edge) list" where
  "abs_entries h es = map (\<lambda>p. (fst p, the (edge_value h (snd p)))) es"

definition extends :: "'ev store \<Rightarrow> 'ev store \<Rightarrow> bool" where
  "extends h h' =
     (\<forall>a ob. lookup h a = Some ob \<longrightarrow>
        (case ob of Rec c \<Rightarrow> (\<exists>c'. lookup h' a = Some (Rec c')) | _ \<Rightarrow> lookup h' a = Some ob))"

definition sim :: "'ev store \<Rightarrow> 'ev store \<Rightarrow> (string \<times> 'ev Edge) list \<Rightarrow> bool" where
  "sim h0 hc acc =
     (take (length h0) hc = h0 \<and>
      (\<exists>ces. lookup hc (length h0) = Some (Rec ces) \<and>
             map (\<lambda>p. (fst p, edge_value hc (snd p))) ces
               = map (\<lambda>p. (fst p, Some (snd p))) acc))"

subsection \<open>Concrete inputs\<close>

definition corner_path :: "point list" where
  "corner_path = [\<lparr>pt_x = 0, pt_y = 0\<rparr>, \<lparr>pt_x = 10, pt_y = 0\<rparr>, \<lparr>pt_x = 10, pt_y = 10\<rparr>]"

definition corner_label :: "real \<Rightarrow> edge_label" where
  "corner_label w = \<lparr>label_text = None, label_x = Some 10, label_y = Some 5, label_width = Some w\<rparr>"

definition sample_data :: "edge_section option \<Rightarrow> nat ELKEdgeData" where
  "sample_data sec =
     \<lparr>originalSourceId = ''src'', originalTargetId = ''tgt'',
      label = \<lparr>label_text = None, label_x = None, label_y = None, label_width = None\<rparr>,
      data_section = sec, events = [], eventChainHovered = None\<rparr>"

definition sample_edge :: "string \<Rightarrow> nat ELKEdgeData option \<Rightarrow> nat Edge" where
  "sample_edge i d =
     \<lparr>edge_id = i, edge_source = ''src'', edge_target = ''tgt'', edge_selected = None,
      edge_data = d\<rparr>"

definition sample_section :: edge_section where
  "sample_section =
     \<lparr>startPoint = \<lparr>pt_x = 20, pt_y = 5\<rparr>,
      bendPoints = Some [\<lparr>pt_x = 30, pt_y = 5\<rparr>, \<lparr>pt_x = 30, pt_y = 9\<rparr>],
      endPoint = \<lparr>pt_x = 40, pt_y = 9\<rparr>\<rparr>"

definition sample_props :: "edge_section option \<Rightarrow> nat edge_props" where
  "sample_props sec =
     \<lparr>props_id = ''e1'', props_selected = None, props_data = Some (sample_data sec),
      props_markerEnd = None\<rparr>"

text \<open>A store with one edge, its data and the record that holds it, at address 2.\<close>

definition sample_store :: "nat store" where
  "sample_store =
     [DataO (sample_data None), EdgeO ''e1'' ''src'' ''tgt'' None (Some 0), Rec [(''e1'', 1)]]"

definition nodeA :: Node where
  "nodeA =
     \<lparr>node_id = ''A'',
      node_data = \<lparr>data_id = [(''Account'', ''1''), (''Secret'', ''s1'')], numChildren = 0,
                   collapsed = False, environments = [], resourceIssueIds = [''i1'', ''i2''],
                   originalParentId = None, parentResourceId = None,
                   data_highlighted = None\<rparr>\<rparr>"

text \<open>A stand-in for the absent helper, for concrete runs: the type of the last part.\<close>

definition last_type :: "ResourceId \<Rightarrow> string" where
  "last_type r = (case r of [] \<Rightarrow> [] | p # ps \<Rightarrow> fst (last r))"

section \<open>Properties of the edge component\<close>

lemma cmd_vertex_line_to: "cmd_vertex (line_to p) = p"
  by (cases p) (simp add: line_to_def)

lemma path_vertices_lines: "path_vertices (map line_to ps) = ps"
  by (induction ps) (simp_all add: path_vertices_def cmd_vertex_line_to)

text \<open>
  C1, as the specification states it: for the vertices \<open>(0,0), (10,0), (10,10)\<close> and the
  label \<open>{x: 10, width: 0, y: 5}\<close> the label correction returns 0. It does not: the
  guard \<^verbatim>\<open>!label.width\<close> is true for a width of 0, and the function returns
  \<^verbatim>\<open>label.y\<close>, which is 5.
\<close>

theorem C1_zero_width_counterexample:
  "calculateClosestPathMidpoint (corner_label 0) corner_path = Some (Fin 5)
   \<and> calculateClosestPathMidpoint (corner_label 0) corner_path \<noteq> Some (Fin 0)"
  by (simp add: calculateClosestPathMidpoint_def falsy_def corner_label_def)

text \<open>
  C1, amended: on those vertices, the label \<open>{x: 10, width: 0, y: 5}\<close> is returned
  uncorrected, \<open>y = 5\<close>, because the guard takes a width of 0 for a missing one. With
  any other width both pairs \<open>(0,0)-(10,0)\<close> and \<open>(10,0)-(10,10)\<close> cover the label,
  the candidates 0 and 10 are both at distance 5 from \<open>label.y = 5\<close>, and the result
  is 0, the value met first.
\<close>

theorem C1_label_correction:
  "calculateClosestPathMidpoint (corner_label 0) corner_path = Some (Fin 5)
   \<and> (w \<noteq> 0 \<longrightarrow>
        covers 10 w (corner_path ! 0) (corner_path ! 1)
      \<and> covers 10 w (corner_path ! 1) (corner_path ! 2)
      \<and> \<bar>pt_y (corner_path ! 1) - 5\<bar> = 5
      \<and> \<bar>pt_y (corner_path ! 2) - 5\<bar> = 5
      \<and> calculateClosestPathMidpoint (corner_label w) corner_path = Some (Fin 0))"
  by (simp add: calculateClosestPathMidpoint_def falsy_def corner_label_def corner_path_def
        covers_def)

theorem C1_label_correction_witness:
  "(1::real) \<noteq> 0
   \<and> calculateClosestPathMidpoint (corner_label 1) corner_path = Some (Fin 0)
   \<and> calculateClosestPathMidpoint (corner_label 0) corner_path = Some (Fin 5)"
  using C1_label_correction [of 1] by simp

text \<open>
  C7: for every routed section the path of the rendered edge runs through the start
  point moved left by half the issue-badge size (\<open>26 / 2 = 13\<close>), then the bend
  points, then the end point; no other vertex is moved.
\<close>

theorem C7_path_vertices:
  "props_data props = Some d \<Longrightarrow> data_section d = Some sec \<Longrightarrow>
     map_option base_path (ELKEdge props) =
       Some (MoveTo (pt_x (startPoint sec) - ISSUE_BADGE_SIZE / 2) (pt_y (startPoint sec))
             # map line_to (bend_list sec) @ [line_to (endPoint sec)])
   \<and> map_option (\<lambda>r. path_vertices (base_path r)) (ELKEdge props) =
       Some ([\<lparr>pt_x = pt_x (startPoint sec) - 13, pt_y = pt_y (startPoint sec)\<rparr>]
             @ bend_list sec @ [endPoint sec])
   \<and> ISSUE_BADGE_SIZE / 2 = 13
   \<and> bend_list sec = (case bendPoints sec of None \<Rightarrow> [] | Some bs \<Rightarrow> bs)"
proof -
  assume d: "props_data props = Some d" and sec: "data_section d = Some sec"
  have verts: "path_vertices (map line_to (bend_list sec) @ [line_to (endPoint sec)])
                 = bend_list sec @ [endPoint sec]"
    using path_vertices_lines [of "bend_list sec @ [endPoint sec]"] by simp
  have shifted: "path_vertices
          (MoveTo (pt_x (startPoint sec) - ISSUE_BADGE_SIZE / 2) (pt_y (startPoint sec))
           # map line_to (bend_list sec) @ [line_to (endPoint sec)])
        = [\<lparr>pt_x = pt_x (startPoint sec) - 13, pt_y = pt_y (startPoint sec)\<rparr>]
          @ bend_list sec @ [endPoint sec]"
    using verts by (simp add: path_vertices_def ISSUE_BADGE_SIZE_def)
  have path: "map_option base_path (ELKEdge props) =
       Some (MoveTo (pt_x (startPoint sec) - ISSUE_BADGE_SIZE / 2) (pt_y (startPoint sec))
             # map line_to (bend_list sec) @ [line_to (endPoint sec)])"
    using d sec by (simp add: ELKEdge_def Let_def)
  have "map_option (\<lambda>r. path_vertices (base_path r)) (ELKEdge props)
          = map_option path_vertices (map_option base_path (ELKEdge props))"
    by (simp add: option.map_comp comp_def)
  with path shifted have vs: "map_option (\<lambda>r. path_vertices (base_path r)) (ELKEdge props) =
       Some ([\<lparr>pt_x = pt_x (startPoint sec) - 13, pt_y = pt_y (startPoint sec)\<rparr>]
             @ bend_list sec @ [endPoint sec])"
    by (simp only: option.map)
  have half: "ISSUE_BADGE_SIZE / 2 = 13"
    by (simp add: ISSUE_BADGE_SIZE_def)
  have bends: "bend_list sec = (case bendPoints sec of None \<Rightarrow> [] | Some bs \<Rightarrow> bs)"
    by (simp add: bend_list_def)
  from path vs half bends show ?thesis by (intro conjI)
qed

theorem C7_path_vertices_witness:
  "props_data (sample_props (Some sample_section)) = Some (sample_data (Some sample_section))
   \<and> data_section (sample_data (Some sample_section)) = Some sample_section
   \<and> map_option (\<lambda>r. path_vertices (base_path r)) (ELKEdge (sample_props (Some sample_section))) =
       Some [\<lparr>pt_x = 7, pt_y = 5\<rparr>, \<lparr>pt_x = 30, pt_y = 5\<rparr>, \<lparr>pt_x = 30, pt_y = 9\<rparr>,
             \<lparr>pt_x = 40, pt_y = 9\<rparr>]"
proof -
  have a: "props_data (sample_props (Some sample_section)) = Some (sample_data (Some sample_section))"
    by (simp add: sample_props_def)
  have b: "data_section (sample_data (Some sample_section)) = Some sample_section"
    by (simp add: sample_data_def)
  have "map_option (\<lambda>r. path_vertices (base_path r)) (ELKEdge (sample_props (Some sample_section))) =
       Some ([\<lparr>pt_x = pt_x (startPoint sample_section) - 13, pt_y = pt_y (startPoint sample_section)\<rparr>]
             @ bend_list sample_section @ [endPoint sample_section])"
    using C7_path_vertices [OF a b] by (rule conjunct2 [THEN conjunct1])
  then show ?thesis
    using a b by (simp add: sample_section_def bend_list_def)
qed

text \<open>
  C8: an edge that has its data but no section yet is rendered as nothing; the
  component returns \<^verbatim>\<open>null\<close> and raises no error.
\<close>

theorem C8_no_section_renders_nothing:
  "props_data props = Some d \<Longrightarrow> data_section d = None \<Longrightarrow> ELKEdge props = None"
  by (simp add: ELKEdge_def)

theorem C8_no_section_renders_nothing_witness:
  "props_data (sample_props None) = Some (sample_data None)
   \<and> data_section (sample_data None) = None
   \<and> ELKEdge (sample_props None) = None"
proof -
  have a: "props_data (sample_props None) = Some (sample_data None)"
    by (simp add: sample_props_def)
  have b: "data_section (sample_data None) = None"
    by (simp add: sample_data_def)
  show ?thesis
    using a b C8_no_section_renders_nothing [OF a b] by simp
qed

section \<open>Properties of the drag-click handler\<close>

lemma point_eta: "\<lparr>pt_x = pt_x p, pt_y = pt_y p\<rparr> = p"
  by (cases p) simp

lemma handle_all_append:
  "handle_all efp (es @ fs) v =
     (let (v1, o1) = handle_all efp es v; (v2, o2) = handle_all efp fs v1 in (v2, o1 @ o2))"
  by (induction es arbitrary: v) (auto simp: Let_def split: prod.splits)

lemma handle_press:
  "dragClickHandler efp (mouse ''mousedown'' p) v =
     (\<lparr>lastMouseCoords = Some p, distanceMoved = 0\<rparr>, [])"
  by (simp add: dragClickHandler_def mouse_def point_eta)

text \<open>Moves of a gesture in progress add up the legs and dispatch nothing.\<close>

lemma handle_moves:
  "lastMouseCoords v = Some p \<Longrightarrow>
   handle_all efp (map (mouse ''mousemove'') ps) v =
     (\<lparr>lastMouseCoords = Some (last (p # ps)),
       distanceMoved = distanceMoved v + travelled (p # ps)\<rparr>, [])"
proof (induction ps arbitrary: v p)
  case Nil
  then show ?case by (cases v) simp
next
  case (Cons a ps)
  let ?v1 = "\<lparr>lastMouseCoords = Some a, distanceMoved = distanceMoved v + distance p a\<rparr>"
  have step: "dragClickHandler efp (mouse ''mousemove'' a) v = (?v1, [])"
    using Cons.prems
    by (simp add: dragClickHandler_def mouse_def Let_def distance_def point_eta)
  have "lastMouseCoords ?v1 = Some a" by simp
  from Cons.IH [OF this] step show ?case by (simp add: add.assoc)
qed

lemma travelled_snoc:
  "travelled (p # ps @ [q]) = travelled (p # ps) + distance (last (p # ps)) q"
  by (induction ps arbitrary: p) auto

lemma handle_release:
  "lastMouseCoords v = Some p \<Longrightarrow>
   dragClickHandler efp (mouse ''mouseup'' q) v =
     (\<lparr>lastMouseCoords = None, distanceMoved = 0\<rparr>,
      if distanceMoved v + distance p q < 5
      then (case efp (pt_x q) (pt_y q) of
              None \<Rightarrow> []
            | Some el \<Rightarrow> [Click el (pt_x q) (pt_y q)])
      else [])"
  by (simp add: dragClickHandler_def mouse_def Let_def distance_def split: option.splits)

lemma gesture_result:
  "handle_all efp (gesture p0 ps q) v =
     (\<lparr>lastMouseCoords = None, distanceMoved = 0\<rparr>,
      if travelled (p0 # ps @ [q]) < 5
      then (case efp (pt_x q) (pt_y q) of
              None \<Rightarrow> []
            | Some el \<Rightarrow> [Click el (pt_x q) (pt_y q)])
      else [])"
proof -
  let ?v0 = "\<lparr>lastMouseCoords = Some p0, distanceMoved = 0\<rparr>"
  let ?v1 = "\<lparr>lastMouseCoords = Some (last (p0 # ps)), distanceMoved = travelled (p0 # ps)\<rparr>"
  have moves: "handle_all efp (map (mouse ''mousemove'') ps) ?v0 = (?v1, [])"
    using handle_moves [of ?v0 p0 efp ps] by simp
  have rel: "dragClickHandler efp (mouse ''mouseup'' q) ?v1 =
     (\<lparr>lastMouseCoords = None, distanceMoved = 0\<rparr>,
      if travelled (p0 # ps @ [q]) < 5
      then (case efp (pt_x q) (pt_y q) of
              None \<Rightarrow> []
            | Some el \<Rightarrow> [Click el (pt_x q) (pt_y q)])
      else [])"
  proof -
    have "lastMouseCoords ?v1 = Some (last (p0 # ps))" by simp
    from handle_release [OF this, of efp q] show ?thesis
      by (simp add: travelled_snoc del: last.simps travelled.simps)
  qed
  show ?thesis
    unfolding gesture_def
    by (simp add: handle_press handle_all_append moves rel del: travelled.simps last.simps)
qed

lemma settled_step: "settled v \<Longrightarrow> settled (fst (dragClickHandler efp e v))"
  by (auto simp: settled_def dragClickHandler_def Let_def split: option.splits)

lemma settled_all: "settled v \<Longrightarrow> settled (fst (handle_all efp es v))"
proof (induction es arbitrary: v)
  case Nil
  then show ?case by simp
next
  case (Cons e es)
  from settled_step [OF Cons.prems, of efp e] Cons.IH [of "fst (dragClickHandler efp e v)"]
  show ?case by (simp add: Let_def case_prod_beta)
qed

lemma release_clears:
  "settled v \<Longrightarrow>
   fst (dragClickHandler efp (mouse ''mouseup'' q) v) =
     \<lparr>lastMouseCoords = None, distanceMoved = 0\<rparr>"
  by (cases v) (auto simp: settled_def dragClickHandler_def mouse_def Let_def split: option.splits)

lemma sqrt_25: "sqrt 25 = 5"
  by (rule real_sqrt_unique) simp_all

text \<open>
  C4: a gesture is a press at \<open>p0\<close>, moves through \<open>ps\<close> and a release at \<open>q\<close>. From
  any state of the module variables, the release dispatches a click, at \<open>q\<close> and to the
  element found there, exactly when the length travelled from \<open>p0\<close> through \<open>ps\<close> to
  \<open>q\<close> is strictly below 5 and the hit test finds an element; no other click is
  dispatched. Press at \<open>(0,0)\<close> and release at \<open>(3,4)\<close>, a distance of exactly 5, gives
  no click; a gesture that never leaves \<open>(0,0)\<close> gives one. After a release the stored
  position is cleared and the distance is 0, whatever was dispatched; this also
  holds for a release with no press before it, after any sequence of events from
  the initial state.
\<close>

theorem C4_release_click:
  "handle_all efp (gesture p0 ps q) v =
     (\<lparr>lastMouseCoords = None, distanceMoved = 0\<rparr>,
      if travelled (p0 # ps @ [q]) < 5
      then (case efp (pt_x q) (pt_y q) of
              None \<Rightarrow> []
            | Some el \<Rightarrow> [Click el (pt_x q) (pt_y q)])
      else [])
   \<and> snd (handle_all efp (gesture \<lparr>pt_x = 0, pt_y = 0\<rparr> [] \<lparr>pt_x = 3, pt_y = 4\<rparr>) v) = []
   \<and> snd (handle_all (\<lambda>a b. Some el0)
            (gesture \<lparr>pt_x = 0, pt_y = 0\<rparr> [\<lparr>pt_x = 0, pt_y = 0\<rparr>, \<lparr>pt_x = 0, pt_y = 0\<rparr>]
               \<lparr>pt_x = 0, pt_y = 0\<rparr>) v) = [Click el0 0 0]
   \<and> fst (dragClickHandler efp (mouse ''mouseup'' q) (fst (handle_all efp es initial_vars))) =
       \<lparr>lastMouseCoords = None, distanceMoved = 0\<rparr>"
proof (intro conjI)
  show "handle_all efp (gesture p0 ps q) v =
     (\<lparr>lastMouseCoords = None, distanceMoved = 0\<rparr>,
      if travelled (p0 # ps @ [q]) < 5
      then (case efp (pt_x q) (pt_y q) of
              None \<Rightarrow> []
            | Some el \<Rightarrow> [Click el (pt_x q) (pt_y q)])
      else [])"
    by (rule gesture_result)
  show "snd (handle_all efp (gesture \<lparr>pt_x = 0, pt_y = 0\<rparr> [] \<lparr>pt_x = 3, pt_y = 4\<rparr>) v) = []"
    by (simp add: gesture_result distance_def sqrt_25)
  show "snd (handle_all (\<lambda>a b. Some el0)
            (gesture \<lparr>pt_x = 0, pt_y = 0\<rparr> [\<lparr>pt_x = 0, pt_y = 0\<rparr>, \<lparr>pt_x = 0, pt_y = 0\<rparr>]
               \<lparr>pt_x = 0, pt_y = 0\<rparr>) v) = [Click el0 0 0]"
    by (simp add: gesture_result distance_def)
  have "settled initial_vars"
    by (simp add: settled_def initial_vars_def)
  then have "settled (fst (handle_all efp es initial_vars))"
    by (rule settled_all)
  then show "fst (dragClickHandler efp (mouse ''mouseup'' q) (fst (handle_all efp es initial_vars))) =
       \<lparr>lastMouseCoords = None, distanceMoved = 0\<rparr>"
    by (rule release_clears)
qed

theorem C4_release_click_witness:
  "handle_all (\<lambda>a b. Some ''node'') (gesture \<lparr>pt_x = 0, pt_y = 0\<rparr> [] \<lparr>pt_x = 0, pt_y = 4\<rparr>)
      initial_vars
     = (\<lparr>lastMouseCoords = None, distanceMoved = 0\<rparr>, [Click ''node'' 0 4])
   \<and> handle_all (\<lambda>a b. None :: string option) (gesture \<lparr>pt_x = 0, pt_y = 0\<rparr> [] \<lparr>pt_x = 0, pt_y = 4\<rparr>)
      initial_vars
     = (\<lparr>lastMouseCoords = None, distanceMoved = 0\<rparr>, [])
   \<and> handle_all (\<lambda>a b. Some ''node'')
        (gesture \<lparr>pt_x = 0, pt_y = 0\<rparr> [\<lparr>pt_x = 0, pt_y = 3\<rparr>] \<lparr>pt_x = 0, pt_y = 0\<rparr>) initial_vars
     = (\<lparr>lastMouseCoords = None, distanceMoved = 0\<rparr>, [])"
proof -
  have a: "travelled [\<lparr>pt_x = 0, pt_y = 0\<rparr>, \<lparr>pt_x = 0, pt_y = 4\<rparr>] = 4"
    by (simp add: distance_def)
  have b: "travelled [\<lparr>pt_x = 0, pt_y = 0\<rparr>, \<lparr>pt_x = 0, pt_y = 3\<rparr>, \<lparr>pt_x = 0, pt_y = 0\<rparr>] = 6"
    by (simp add: distance_def)
  note w1 = C4_release_click [of "\<lambda>a b. Some ''node''" "\<lparr>pt_x = 0, pt_y = 0\<rparr>" "[]"
            "\<lparr>pt_x = 0, pt_y = 4\<rparr>" initial_vars, THEN conjunct1]
  note w2 = C4_release_click [of "\<lambda>a b. None :: string option" "\<lparr>pt_x = 0, pt_y = 0\<rparr>" "[]"
            "\<lparr>pt_x = 0, pt_y = 4\<rparr>" initial_vars, THEN conjunct1]
  note w3 = C4_release_click [of "\<lambda>a b. Some ''node''" "\<lparr>pt_x = 0, pt_y = 0\<rparr>"
            "[\<lparr>pt_x = 0, pt_y = 3\<rparr>]" "\<lparr>pt_x = 0, pt_y = 0\<rparr>" initial_vars, THEN conjunct1]
  show ?thesis
    using w1 w2 w3 a b by (simp del: travelled.simps)
qed

text \<open>
  C2, as the specification states it: the classifier state is kept per mounted
  canvas, and pointer events of one canvas leave the state of every other canvas
  unchanged. It is not: a press handled for canvas 0 changes the state that the
  handler of canvas 1 works on, and a release then handled for canvas 1 dispatches
  a click that canvas 1 alone would not have dispatched.
\<close>

theorem C2_shared_state_counterexample:
  "classifier_state 1
      (fst (onMove (\<lambda>a b. Some ''el'') 0 (mouse ''mousedown'' \<lparr>pt_x = 3, pt_y = 4\<rparr>) initial_page))
     \<noteq> classifier_state 1 initial_page
   \<and> snd (onMove (\<lambda>a b. Some ''el'') 1 (mouse ''mouseup'' \<lparr>pt_x = 3, pt_y = 4\<rparr>) initial_page) = []
   \<and> snd (onMove (\<lambda>a b. Some ''el'') 1 (mouse ''mouseup'' \<lparr>pt_x = 3, pt_y = 4\<rparr>)
          (fst (onMove (\<lambda>a b. Some ''el'') 0 (mouse ''mousedown'' \<lparr>pt_x = 3, pt_y = 4\<rparr>)
                  initial_page)))
       = [Click ''el'' 3 4]"
  by (simp add: classifier_state_def onMove_def dragClickHandler_def mouse_def
        initial_page_def initial_vars_def)

text \<open>
  C2, amended: the classifier state (last pointer position, accumulated distance) is
  one pair of module-level variables, shared by all mounted canvases: a pointer event
  handled for any canvas updates that one state, by the handler's rule, and every
  canvas works on the updated state. Pointer events leave the hovered-edge sets
  alone; those are kept per canvas, and a hover event of one canvas changes the set
  of that canvas only and not the classifier state.
\<close>

theorem C2_module_level_state:
  "classifier_state c' (fst (onMove efp c ev pg)) =
     fst (dragClickHandler efp ev (classifier_state c pg))
   \<and> snd (onMove efp c ev pg) = snd (dragClickHandler efp ev (classifier_state c' pg))
   \<and> classifier_state c' pg = classifier_state c pg
   \<and> hoveredEdges (fst (onMove efp c ev pg)) = hoveredEdges pg
   \<and> classifier_state c' (onEdgeMouse c ty edge pg) = classifier_state c' pg
   \<and> hoveredEdges (onEdgeMouse c ty edge pg) =
       (hoveredEdges pg)(c := handleEdgeHover ty edge (hoveredEdges pg c))"
  by (simp add: classifier_state_def onMove_def onEdgeMouse_def split: prod.splits)

section \<open>Properties of the highlighting\<close>

lemma keys_update: "k \<in> fst ` set al \<Longrightarrow> map fst (AList.update k v al) = map fst al"
  by (simp add: update_keys)

lemma map_of_key: "map_of edges k = Some e \<Longrightarrow> k \<in> fst ` set edges"
  by (drule map_of_SomeD) (rule image_eqI [where x = "(k, e)"], simp_all)

text \<open>The inner loop only ever assigns to keys the object already has.\<close>

lemma mark_chain_keys:
  "fst ` set edges \<subseteq> fst ` set acc \<Longrightarrow> map fst (mark_chain edges ids acc) = map fst acc"
proof (induction ids arbitrary: acc)
  case Nil
  then show ?case by simp
next
  case (Cons i ids)
  show ?case
  proof (cases "map_of edges i")
    case None
    then show ?thesis using Cons by simp
  next
    case e: (Some e)
    show ?thesis
    proof (cases "edge_data e")
      case None
      then show ?thesis using e Cons by simp
    next
      case (Some d)
      let ?acc' = "AList.update i (with_hovered e d) acc"
      have "i \<in> fst ` set edges" using e by (rule map_of_key)
      then have i: "i \<in> fst ` set acc" using Cons.prems by (rule subsetD [rotated])
      then have k: "map fst ?acc' = map fst acc" by (rule keys_update)
      have "fst ` set ?acc' = insert i (fst ` set acc)" by (simp add: dom_update)
      then have "fst ` set ?acc' = fst ` set acc" using i by (simp only: insert_absorb)
      then have sub: "fst ` set edges \<subseteq> fst ` set ?acc'" using Cons.prems by (simp only:)
      have "mark_chain edges (i # ids) acc = mark_chain edges ids ?acc'" using e Some by simp
      then show ?thesis using Cons.IH [OF sub] k by (simp only:)
    qed
  qed
qed

lemma mark_chain_map_of:
  "map_of (mark_chain edges ids acc) k =
     (if k \<in> set ids \<and> marked edges k \<noteq> None then marked edges k else map_of acc k)"
proof (induction ids arbitrary: acc)
  case Nil
  then show ?case by simp
next
  case (Cons i ids)
  show ?case
  proof (cases "marked edges i")
    case None
    then have "mark_chain edges (i # ids) acc = mark_chain edges ids acc"
      by (simp add: marked_def split: option.splits)
    with Cons.IH [of acc] None show ?thesis by auto
  next
    case (Some m)
    then obtain e d where e: "map_of edges i = Some e" "edge_data e = Some d" "m = with_hovered e d"
      by (auto simp: marked_def split: option.splits)
    then have "mark_chain edges (i # ids) acc = mark_chain edges ids (AList.update i m acc)"
      by simp
    with Cons.IH [of "AList.update i m acc"] Some show ?thesis
      by (auto simp: update_conv')
  qed
qed

lemma chain_ids_Nil: "chain_ids links [] = {}"
  by (simp add: chain_ids_def)

lemma chain_ids_Cons: "chain_ids links (h # hs) = link_ids links h \<union> chain_ids links hs"
  by (simp add: chain_ids_def)

lemma hover_step_keys:
  "fst ` set edges \<subseteq> fst ` set acc \<Longrightarrow> map fst (hover_step edges links h acc) = map fst acc"
  by (simp add: hover_step_def mark_chain_keys del: mark_chain.simps split: option.splits)

lemma hover_step_map_of:
  "map_of (hover_step edges links h acc) k =
     (if k \<in> link_ids links h \<and> marked edges k \<noteq> None then marked edges k else map_of acc k)"
  by (cases "links h")
     (auto simp: hover_step_def link_ids_def mark_chain_map_of simp del: mark_chain.simps)

lemma fold_keys:
  "fst ` set edges \<subseteq> fst ` set acc \<Longrightarrow>
   map fst (fold (hover_step edges links) hs acc) = map fst acc"
proof (induction hs arbitrary: acc)
  case Nil
  then show ?case by simp
next
  case (Cons h hs)
  have k: "map fst (hover_step edges links h acc) = map fst acc"
    using Cons.prems by (rule hover_step_keys)
  have "fst ` set (hover_step edges links h acc) = fst ` set acc"
    using arg_cong [OF k, of set] by (simp only: set_map)
  then have "fst ` set edges \<subseteq> fst ` set (hover_step edges links h acc)"
    using Cons.prems by (simp only:)
  from Cons.IH [OF this] k show ?case by simp
qed

lemma fold_map_of:
  "map_of (fold (hover_step edges links) hs acc) k =
     (if k \<in> chain_ids links hs \<and> marked edges k \<noteq> None then marked edges k
      else map_of acc k)"
proof (induction hs arbitrary: acc)
  case Nil
  then show ?case by (simp add: chain_ids_Nil)
next
  case (Cons h hs)
  show ?case
    by (simp add: Cons.IH hover_step_map_of chain_ids_Cons)
qed

text \<open>An association list with distinct keys is determined by its keys and its lookups.\<close>

lemma alist_rebuild:
  "distinct (map fst xs) \<Longrightarrow> map (\<lambda>p. (fst p, the (map_of xs (fst p)))) xs = xs"
proof (induction xs)
  case Nil
  then show ?case by simp
next
  case (Cons x xs)
  have "map (\<lambda>p. (fst p, the (map_of (x # xs) (fst p)))) xs
        = map (\<lambda>p. (fst p, the (map_of xs (fst p)))) xs"
  proof (rule map_cong [OF refl])
    fix p assume "p \<in> set xs"
    then have "fst p \<in> fst ` set xs" by (rule imageI)
    moreover have "fst x \<notin> fst ` set xs" using Cons.prems by simp
    ultimately have "fst x \<noteq> fst p" by metis
    then show "(fst p, the (map_of (x # xs) (fst p))) = (fst p, the (map_of xs (fst p)))"
      by simp
  qed
  with Cons show ?case by simp
qed

lemma alist_same_keys:
  assumes "map fst ys = map fst xs"
  shows "map (\<lambda>p. (fst p, the (map_of ys (fst p)))) xs
         = map (\<lambda>p. (fst p, the (map_of ys (fst p)))) ys"
proof -
  have "map (\<lambda>p. (fst p, the (map_of ys (fst p)))) xs
        = map (\<lambda>k. (k, the (map_of ys k))) (map fst xs)"
    by (simp add: comp_def)
  also have "\<dots> = map (\<lambda>k. (k, the (map_of ys k))) (map fst ys)"
    by (simp only: assms)
  also have "\<dots> = map (\<lambda>p. (fst p, the (map_of ys (fst p)))) ys"
    by (simp add: comp_def)
  finally show ?thesis .
qed

lemma highlighted_marked:
  "map_of edges k = Some e \<Longrightarrow>
   the (if k \<in> ids \<and> marked edges k \<noteq> None then marked edges k else map_of edges k)
     = highlighted ids (k, e)"
  by (simp add: marked_def highlighted_def split: option.splits)

lemma edgesWithHovered_char:
  assumes "distinct (map fst edges)"
  shows "edgesWithHovered hovered edges links =
           map (\<lambda>entry. (fst entry, highlighted (chain_ids links hovered) entry)) edges"
proof -
  let ?r = "edgesWithHovered hovered edges links"
  have keys: "map fst ?r = map fst edges"
    unfolding edgesWithHovered_def by (rule fold_keys) simp
  then have "distinct (map fst ?r)" using assms by (simp only:)
  then have "?r = map (\<lambda>p. (fst p, the (map_of ?r (fst p)))) ?r"
    by (rule alist_rebuild [symmetric])
  also have "\<dots> = map (\<lambda>p. (fst p, the (map_of ?r (fst p)))) edges"
    by (rule alist_same_keys [OF keys, symmetric])
  also have "\<dots> = map (\<lambda>entry. (fst entry, highlighted (chain_ids links hovered) entry)) edges"
  proof (rule map_cong [OF refl])
    fix p assume "p \<in> set edges"
    then have "(fst p, snd p) \<in> set edges" by simp
    with assms have "map_of edges (fst p) = Some (snd p)"
      by (rule map_of_is_SomeI)
    from highlighted_marked [OF this, of "chain_ids links hovered"]
    show "(fst p, the (map_of ?r (fst p))) = (fst p, highlighted (chain_ids links hovered) p)"
      by (simp add: edgesWithHovered_def fold_map_of)
  qed
  finally show ?thesis .
qed


text \<open>
  C5, as the specification states it: every id reached from a hovered id that is
  present in the edge map comes back as a copy with \<open>eventChainHovered = true\<close>. It
  does not when the edge has no \<^verbatim>\<open>data\<close>: the guard \<^verbatim>\<open>!edge?.data\<close> skips it, and
  the hovered edge \<open>e1\<close> below, present in the map and with a link entry, comes back
  as it was, without the flag.
\<close>

theorem C5_edge_without_data_counterexample:
  "edgesArray [''e1''] [(''e1'', sample_edge ''e1'' None)]
      [''e1'' \<mapsto> \<lparr>preceding = [], following = []\<rparr>]
     = [sample_edge ''e1'' None]
   \<and> hovered_flag (sample_edge ''e1'' None) \<noteq> Some True
   \<and> ''e1'' \<in> chain_ids [''e1'' \<mapsto> \<lparr>preceding = [], following = []\<rparr>] [''e1'']
   \<and> map_of [(''e1'', sample_edge ''e1'' None)] ''e1'' = Some (sample_edge ''e1'' None)"
  by (simp add: edgesArray_def edgesWithHovered_def hover_step_def sample_edge_def
        hovered_flag_def chain_ids_def link_ids_def)

text \<open>
  C5, amended: for every hovered set the result is the edge map, entry by entry and
  in its order, where an entry is replaced by a copy with \<open>eventChainHovered = true\<close>
  exactly when its id is a hovered id with a link entry, or is listed as preceding
  or following in the link entry of a hovered id, and the edge carries \<^verbatim>\<open>data\<close>;
  every other entry is the given edge. Hovered ids without a link entry, listed ids
  that are no key of the edge map and edges without \<^verbatim>\<open>data\<close> are passed over; no
  key is added, and nothing is marked beyond the ids a hovered id's own entry
  lists.
\<close>

theorem C5_highlight:
  "distinct (map fst edges) \<Longrightarrow>
     edgesWithHovered hovered edges eventChainLinks =
       map (\<lambda>entry. (fst entry, highlighted (chain_ids eventChainLinks hovered) entry)) edges
   \<and> edgesArray hovered edges eventChainLinks =
       map (highlighted (chain_ids eventChainLinks hovered)) edges
   \<and> map fst (edgesWithHovered hovered edges eventChainLinks) = map fst edges"
proof -
  assume d: "distinct (map fst edges)"
  have m: "edgesWithHovered hovered edges eventChainLinks =
       map (\<lambda>entry. (fst entry, highlighted (chain_ids eventChainLinks hovered) entry)) edges"
    using d by (rule edgesWithHovered_char)
  have a: "edgesArray hovered edges eventChainLinks =
       map (highlighted (chain_ids eventChainLinks hovered)) edges"
  proof (cases hovered)
    case Nil
    have "highlighted {} entry = snd entry" for entry :: "string \<times> 'a Edge"
      by (simp add: highlighted_def split: option.splits)
    then show ?thesis
      using Nil by (simp add: edgesArray_def chain_ids_Nil)
  next
    case (Cons h hs)
    then have "edgesArray hovered edges eventChainLinks =
                 map snd (edgesWithHovered hovered edges eventChainLinks)"
      by (simp add: edgesArray_def)
    also have "\<dots> = map (highlighted (chain_ids eventChainLinks hovered)) edges"
      by (simp only: m) (simp add: comp_def)
    finally show ?thesis .
  qed
  have k: "map fst (edgesWithHovered hovered edges eventChainLinks) = map fst edges"
    by (simp add: m comp_def)
  from m a k show ?thesis by (intro conjI)
qed

theorem C5_highlight_witness:
  "distinct (map fst [(''e1'', sample_edge ''e1'' (Some (sample_data None))),
                      (''e2'', sample_edge ''e2'' (Some (sample_data None))),
                      (''e3'', sample_edge ''e3'' None),
                      (''e4'', sample_edge ''e4'' (Some (sample_data None)))])
   \<and> edgesArray [''e1'', ''stale'']
        [(''e1'', sample_edge ''e1'' (Some (sample_data None))),
         (''e2'', sample_edge ''e2'' (Some (sample_data None))),
         (''e3'', sample_edge ''e3'' None),
         (''e4'', sample_edge ''e4'' (Some (sample_data None)))]
        [''e1'' \<mapsto> \<lparr>preceding = [''e3''], following = [''e2'', ''gone'']\<rparr>]
     = [with_hovered (sample_edge ''e1'' (Some (sample_data None))) (sample_data None),
        with_hovered (sample_edge ''e2'' (Some (sample_data None))) (sample_data None),
        sample_edge ''e3'' None,
        sample_edge ''e4'' (Some (sample_data None))]"
proof -
  let ?E = "[(''e1'', sample_edge ''e1'' (Some (sample_data None))),
             (''e2'', sample_edge ''e2'' (Some (sample_data None))),
             (''e3'', sample_edge ''e3'' None),
             (''e4'', sample_edge ''e4'' (Some (sample_data None)))]"
  let ?L = "[''e1'' \<mapsto> \<lparr>preceding = [''e3''], following = [''e2'', ''gone'']\<rparr>]"
  have d: "distinct (map fst ?E)" by simp
  have ids: "chain_ids ?L [''e1'', ''stale''] = {''e1'', ''e3'', ''e2'', ''gone''}"
    by (auto simp: chain_ids_def link_ids_def)
  have "edgesArray [''e1'', ''stale''] ?E ?L = map (highlighted (chain_ids ?L [''e1'', ''stale''])) ?E"
    using C5_highlight [OF d, of "[''e1'', ''stale'']" ?L] by (rule conjunct2 [THEN conjunct1])
  then show ?thesis
    using d by (simp add: ids highlighted_def sample_edge_def)
qed



section \<open>Properties of the highlighting over the store\<close>

lemma edge_value_append_array: "edge_value (h @ [Arr xs]) a = edge_value h a"
proof -
  have l: "lookup (h @ [Arr xs]) b = (if b = length h then Some (Arr xs) else lookup h b)" for b
    by (simp add: lookup_def nth_append)
  have n: "lookup h (length h) = None"
    by (simp add: lookup_def)
  show ?thesis
    by (auto simp: edge_value_def l n split: option.splits obj.splits)
qed

lemma edge_value_append_array_fun: "edge_value (h @ [Arr xs]) = edge_value h"
  by (rule ext) (rule edge_value_append_array)

text \<open>The loop never shrinks the store, and the spread copy stays a record.\<close>

lemma mark_chain_store_grows:
  "lookup h copy = Some (Rec ces) \<Longrightarrow>
   length h \<le> length (mark_chain_store edges copy ids h)
   \<and> (\<exists>ces'. lookup (mark_chain_store edges copy ids h) copy = Some (Rec ces'))"
proof (induction ids arbitrary: h ces)
  case Nil
  then show ?case by simp
next
  case (Cons i ids)
  have skip: "length h \<le> length (mark_chain_store edges copy ids h)
   \<and> (\<exists>ces'. lookup (mark_chain_store edges copy ids h) copy = Some (Rec ces'))"
    using Cons.IH [OF Cons.prems] .
  have lt: "copy < length h"
    using Cons.prems by (simp add: lookup_def split: if_splits)
  have upd: "length h \<le> length (mark_chain_store edges copy ids ((h @ [x, y])[copy := Rec c]))
   \<and> (\<exists>ces'. lookup (mark_chain_store edges copy ids ((h @ [x, y])[copy := Rec c])) copy
                = Some (Rec ces'))"
    for x y c
  proof -
    have "lookup ((h @ [x, y])[copy := Rec c]) copy = Some (Rec c)"
      using lt by (simp add: lookup_def)
    from Cons.IH [OF this] show ?thesis by simp
  qed
  show ?case
    using skip upd
    by (simp add: alloc_def split: option.splits obj.splits)
qed

lemma extends_append: "extends h (h @ xs)"
  by (auto simp: extends_def lookup_def nth_append split: obj.splits if_splits)

lemma extends_update: "lookup h c = Some (Rec x) \<Longrightarrow> extends h (h[c := Rec y])"
  by (auto simp: extends_def lookup_def nth_list_update split: obj.splits if_splits)

lemma extends_RecD:
  "extends h h' \<Longrightarrow> lookup h a = Some (Rec c) \<Longrightarrow> \<exists>c'. lookup h' a = Some (Rec c')"
  by (unfold extends_def, drule spec [where x = a], drule spec [where x = "Rec c"]) simp

lemma extends_EdgeD:
  "extends h h' \<Longrightarrow> lookup h a = Some (EdgeO i s t sel d) \<Longrightarrow>
   lookup h' a = Some (EdgeO i s t sel d)"
  by (unfold extends_def, drule spec [where x = a], drule spec [where x = "EdgeO i s t sel d"]) simp

lemma extends_DataD:
  "extends h h' \<Longrightarrow> lookup h a = Some (DataO d) \<Longrightarrow> lookup h' a = Some (DataO d)"
  by (unfold extends_def, drule spec [where x = a], drule spec [where x = "DataO d"]) simp

lemma extends_ArrD:
  "extends h h' \<Longrightarrow> lookup h a = Some (Arr xs) \<Longrightarrow> lookup h' a = Some (Arr xs)"
  by (unfold extends_def, drule spec [where x = a], drule spec [where x = "Arr xs"]) simp

lemma extends_trans:
  assumes "extends h h'" and "extends h' h''"
  shows "extends h h''"
  unfolding extends_def
proof (intro allI impI)
  fix a ob
  assume l: "lookup h a = Some ob"
  show "case ob of Rec c \<Rightarrow> \<exists>c'. lookup h'' a = Some (Rec c') | _ \<Rightarrow> lookup h'' a = Some ob"
  proof (cases ob)
    case (Rec c)
    with l assms(1) obtain c' where "lookup h' a = Some (Rec c')"
      using extends_RecD by blast
    with assms(2) obtain c'' where "lookup h'' a = Some (Rec c'')"
      using extends_RecD by blast
    with Rec show ?thesis by simp
  next
    case (Arr x)
    with l assms show ?thesis by (simp add: extends_ArrD)
  next
    case (EdgeO i s t sel d)
    with l assms show ?thesis by (simp add: extends_EdgeD)
  next
    case (DataO d)
    with l assms show ?thesis by (simp add: extends_DataD)
  qed
qed

lemma edge_value_extends:
  assumes "extends h h'" and "edge_value h r = Some e"
  shows "edge_value h' r = Some e"
proof -
  from assms(2) obtain i s t sel dr where r: "lookup h r = Some (EdgeO i s t sel dr)"
    by (auto simp: edge_value_def split: option.splits obj.splits)
  with assms(1) have r': "lookup h' r = Some (EdgeO i s t sel dr)"
    by (rule extends_EdgeD)
  show ?thesis
  proof (cases dr)
    case None
    with r r' assms(2) show ?thesis by (simp add: edge_value_def)
  next
    case (Some a)
    with r assms(2) obtain d where d: "lookup h a = Some (DataO d)"
      by (auto simp: edge_value_def split: option.splits obj.splits)
    with assms(1) have "lookup h' a = Some (DataO d)"
      by (rule extends_DataD)
    with Some r r' d assms(2) show ?thesis by (simp add: edge_value_def)
  qed
qed

lemma update_map_values:
  "map (\<lambda>p. (fst p, f (snd p))) (AList.update k v al)
     = AList.update k (f v) (map (\<lambda>p. (fst p, f (snd p))) al)"
  by (induction al) auto

lemma lookup_take:
  "take n hc = h0 \<Longrightarrow> n \<le> length hc \<Longrightarrow> lookup h0 a = Some ob \<Longrightarrow> lookup hc a = Some ob"
  by (auto simp: lookup_def split: if_splits)


lemma map_of_values:
  "map_of (map (\<lambda>p. (fst p, f (snd p))) es) k = map_option f (map_of es k)"
  by (induction es) auto

lemma all_some:
  assumes "map (\<lambda>p. (fst p, g (snd p))) ces = map (\<lambda>p. (fst p, Some (snd p))) acc"
      and "p \<in> set ces"
  shows "\<exists>e. g (snd p) = Some e"
proof -
  from assms(2) have "(fst p, g (snd p)) \<in> set (map (\<lambda>p. (fst p, g (snd p))) ces)"
    by force
  with assms(1) have "(fst p, g (snd p)) \<in> set (map (\<lambda>p. (fst p, Some (snd p))) acc)"
    by simp
  then show ?thesis by auto
qed

lemma mark_chain_sim:
  assumes e: "lookup h0 edges = Some (Rec es)"
      and wf: "list_all (\<lambda>p. edge_value h0 (snd p) \<noteq> None) es"
  shows "sim h0 hc acc \<Longrightarrow>
         sim h0 (mark_chain_store edges (length h0) ids hc)
                (mark_chain (abs_entries h0 es) ids acc)"
proof (induction ids arbitrary: hc acc)
  case Nil
  then show ?case by simp
next
  case (Cons i ids)
  from Cons.prems obtain ces where
        tk: "take (length h0) hc = h0"
    and c: "lookup hc (length h0) = Some (Rec ces)"
    and m: "map (\<lambda>p. (fst p, edge_value hc (snd p))) ces = map (\<lambda>p. (fst p, Some (snd p))) acc"
    by (auto simp: sim_def)
  have len: "length h0 < length hc"
    using c by (simp add: lookup_def split: if_splits)
  then have le: "length h0 \<le> length hc" by simp
  have old: "lookup h0 a = Some ob \<Longrightarrow> lookup hc a = Some ob" for a ob
    using tk le by (rule lookup_take)
  have ent: "entries_of hc edges = es"
    using old [OF e] by (simp add: entries_of_def)
  have av: "map_of (abs_entries h0 es) i = map_option (\<lambda>r. the (edge_value h0 r)) (map_of es i)"
    unfolding abs_entries_def
    by (rule map_of_values [where f = "\<lambda>r. the (edge_value h0 r)"])
  show ?case
  proof (cases "map_of es i")
    case None
    with av ent Cons.IH [OF Cons.prems] show ?thesis by simp
  next
    case (Some r)
    then have "(i, r) \<in> set es" by (rule map_of_SomeD)
    with wf obtain ed where ed: "edge_value h0 r = Some ed"
      by (auto simp: list_all_iff)
    with av Some have ve: "map_of (abs_entries h0 es) i = Some ed" by simp
    from ed obtain i' s t sel dr where lr: "lookup h0 r = Some (EdgeO i' s t sel dr)"
      by (auto simp: edge_value_def split: option.splits obj.splits)
    note lr' = old [OF lr]
    show ?thesis
    proof (cases dr)
      case None
      with ed lr have "edge_data ed = None"
        by (auto simp: edge_value_def)
      with ve have v: "mark_chain (abs_entries h0 es) (i # ids) acc
                         = mark_chain (abs_entries h0 es) ids acc"
        by simp
      have "mark_chain_store edges (length h0) (i # ids) hc
              = mark_chain_store edges (length h0) ids hc"
        using ent Some lr' None by simp
      with v Cons.IH [OF Cons.prems] show ?thesis by simp
    next
      case dr: (Some a)
      with ed lr obtain d where ld: "lookup h0 a = Some (DataO d)"
        and edv: "ed = \<lparr>edge_id = i', edge_source = s, edge_target = t, edge_selected = sel,
                        edge_data = Some d\<rparr>"
        by (auto simp: edge_value_def split: option.splits obj.splits)
      note ld' = old [OF ld]
      let ?d' = "d\<lparr>eventChainHovered := Some True\<rparr>"
      let ?h2 = "hc @ [DataO ?d', EdgeO i' s t sel (Some (length hc))]"
      let ?ces' = "AList.update i (Suc (length hc)) ces"
      let ?hc' = "?h2[length h0 := Rec ?ces']"
      have c2: "lookup ?h2 (length h0) = Some (Rec ces)"
        using c len by (simp add: lookup_def nth_append)
      then have ent2: "entries_of ?h2 (length h0) = ces"
        by (simp add: entries_of_def)
      have st: "mark_chain_store edges (length h0) (i # ids) hc
                  = mark_chain_store edges (length h0) ids ?hc'"
        using ent Some lr' dr ld' ent2 by (simp add: alloc_def)
      have wh: "with_hovered ed d = \<lparr>edge_id = i', edge_source = s, edge_target = t,
                                      edge_selected = sel, edge_data = Some ?d'\<rparr>"
        by (simp add: with_hovered_def edv)
      have v: "mark_chain (abs_entries h0 es) (i # ids) acc
                 = mark_chain (abs_entries h0 es) ids (AList.update i (with_hovered ed d) acc)"
        using ve edv by simp
      have ext: "extends hc ?hc'"
        using extends_append [of hc] extends_update [OF c2] by (rule extends_trans)
      have keep: "map (\<lambda>p. (fst p, edge_value ?hc' (snd p))) ces
                    = map (\<lambda>p. (fst p, edge_value hc (snd p))) ces"
      proof (rule map_cong [OF refl])
        fix p assume "p \<in> set ces"
        with m obtain x where "edge_value hc (snd p) = Some x"
          using all_some by blast
        with ext show "(fst p, edge_value ?hc' (snd p)) = (fst p, edge_value hc (snd p))"
          by (simp add: edge_value_extends)
      qed
      have new: "edge_value ?hc' (Suc (length hc)) = Some (with_hovered ed d)"
        using len by (simp add: edge_value_def lookup_def nth_append wh)
      have "map (\<lambda>p. (fst p, edge_value ?hc' (snd p))) ?ces'
              = AList.update i (Some (with_hovered ed d))
                  (map (\<lambda>p. (fst p, edge_value ?hc' (snd p))) ces)"
        by (simp only: update_map_values [where f = "edge_value ?hc'"] new)
      also have "\<dots> = AList.update i (Some (with_hovered ed d))
                          (map (\<lambda>p. (fst p, Some (snd p))) acc)"
        by (simp only: keep m)
      also have "\<dots> = map (\<lambda>p. (fst p, Some (snd p))) (AList.update i (with_hovered ed d) acc)"
        by (simp only: update_map_values [where f = Some])
      finally have m': "map (\<lambda>p. (fst p, edge_value ?hc' (snd p))) ?ces'
              = map (\<lambda>p. (fst p, Some (snd p))) (AList.update i (with_hovered ed d) acc)" .
      have tk': "take (length h0) ?hc' = h0"
        using tk le by simp
      have c': "lookup ?hc' (length h0) = Some (Rec ?ces')"
        using len by (simp add: lookup_def)
      have "sim h0 ?hc' (AList.update i (with_hovered ed d) acc)"
        unfolding sim_def using tk' c' m' by blast
      from Cons.IH [OF this] st v show ?thesis by (simp only:)
    qed
  qed
qed

lemma hover_step_sim:
  assumes e: "lookup h0 edges = Some (Rec es)"
      and wf: "list_all (\<lambda>p. edge_value h0 (snd p) \<noteq> None) es"
  shows "sim h0 hc acc \<Longrightarrow>
         sim h0 (hover_step_store edges (length h0) links hid hc)
                (hover_step (abs_entries h0 es) links hid acc)"
  by (cases "links hid")
     (simp_all add: hover_step_store_def hover_step_def mark_chain_sim [OF e wf]
        del: mark_chain.simps mark_chain_store.simps)

lemma fold_sim:
  assumes e: "lookup h0 edges = Some (Rec es)"
      and wf: "list_all (\<lambda>p. edge_value h0 (snd p) \<noteq> None) es"
  shows "sim h0 hc acc \<Longrightarrow>
         sim h0 (fold (hover_step_store edges (length h0) links) hs hc)
                (fold (hover_step (abs_entries h0 es) links) hs acc)"
proof (induction hs arbitrary: hc acc)
  case Nil
  then show ?case by simp
next
  case (Cons x hs)
  from hover_step_sim [OF e wf Cons.prems, of links x] have
    "sim h0 (hover_step_store edges (length h0) links x hc)
            (hover_step (abs_entries h0 es) links x acc)" .
  from Cons.IH [OF this] show ?case by simp
qed

lemma sim_start:
  assumes wf: "list_all (\<lambda>p. edge_value h (snd p) \<noteq> None) es"
  shows "sim h (h @ [Rec es]) (abs_entries h es)"
proof -
  have "map (\<lambda>p. (fst p, edge_value (h @ [Rec es]) (snd p))) es
          = map (\<lambda>p. (fst p, Some (snd p))) (abs_entries h es)"
    unfolding abs_entries_def map_map comp_def fst_conv snd_conv
  proof (rule map_cong [OF refl])
    fix p assume "p \<in> set es"
    with wf obtain x where x: "edge_value h (snd p) = Some x"
      by (auto simp: list_all_iff)
    with extends_append [of h "[Rec es]"] have "edge_value (h @ [Rec es]) (snd p) = Some x"
      by (rule edge_value_extends)
    with x show "(fst p, edge_value (h @ [Rec es]) (snd p))
                   = (fst p, Some (the (edge_value h (snd p))))"
      by simp
  qed
  then show ?thesis
    by (simp add: sim_def lookup_def)
qed

text \<open>
  The two readings of the memo agree: on a store in which every entry of the record
  is an edge, the array returned holds, element by element, the edges that the value
  reading computes from the edge map the record stands for.
\<close>

lemma edgesArray_store_refines:
  assumes e: "lookup h edges = Some (Rec es)"
      and wf: "list_all (\<lambda>p. edge_value h (snd p) \<noteq> None) es"
  shows "\<exists>elems. lookup (snd (edgesArray_store hovered edges links h))
                     (fst (edgesArray_store hovered edges links h)) = Some (Arr elems)
               \<and> map (edge_value (snd (edgesArray_store hovered edges links h))) elems
                   = map Some (edgesArray hovered (abs_entries h es) links)"
proof (cases hovered)
  case Nil
  have ent: "entries_of h edges = es"
    using e by (simp add: entries_of_def)
  have "map (edge_value h) (map snd es) = map Some (map snd (abs_entries h es))"
    unfolding abs_entries_def map_map comp_def snd_conv
  proof (rule map_cong [OF refl])
    fix p assume "p \<in> set es"
    with wf show "edge_value h (snd p) = Some (the (edge_value h (snd p)))"
      by (auto simp: list_all_iff)
  qed
  then show ?thesis
    using Nil ent
    by (simp add: edgesArray_store_def edgesArray_def alloc_def lookup_def
          edge_value_append_array_fun)
next
  case (Cons x xs)
  let ?h2 = "fold (hover_step_store edges (length h) links) hovered (h @ [Rec es])"
  let ?acc = "fold (hover_step (abs_entries h es) links) hovered (abs_entries h es)"
  have ent: "entries_of h edges = es"
    using e by (simp add: entries_of_def)
  have "sim h ?h2 ?acc"
    using e wf sim_start [OF wf] by (rule fold_sim)
  then obtain ces where c: "lookup ?h2 (length h) = Some (Rec ces)"
    and m: "map (\<lambda>p. (fst p, edge_value ?h2 (snd p))) ces = map (\<lambda>p. (fst p, Some (snd p))) ?acc"
    by (auto simp: sim_def)
  have ent2: "entries_of ?h2 (length h) = ces"
    using c by (simp add: entries_of_def)
  have res: "edgesArray_store hovered edges links h = (length ?h2, ?h2 @ [Arr (map snd ces)])"
    using Cons ent ent2 by (simp add: edgesArray_store_def alloc_def Let_def)
  have "map (edge_value ?h2) (map snd ces) = map snd (map (\<lambda>p. (fst p, edge_value ?h2 (snd p))) ces)"
    by (simp add: comp_def)
  also have "\<dots> = map snd (map (\<lambda>p. (fst p, Some (snd p))) ?acc)"
    by (simp only: m)
  also have "\<dots> = map Some (map snd ?acc)"
    by (simp add: comp_def)
  finally have vals: "map (edge_value ?h2) (map snd ces) = map Some (map snd ?acc)" .
  have val: "edgesArray hovered (abs_entries h es) links = map snd ?acc"
    using Cons by (simp add: edgesArray_def edgesWithHovered_def)
  show ?thesis
    unfolding res val
  proof (rule exI [where x = "map snd ces"], intro conjI)
    show "lookup (snd (length ?h2, ?h2 @ [Arr (map snd ces)]))
            (fst (length ?h2, ?h2 @ [Arr (map snd ces)])) = Some (Arr (map snd ces))"
      by (simp add: lookup_def)
    show "map (edge_value (snd (length ?h2, ?h2 @ [Arr (map snd ces)]))) (map snd ces)
            = map Some (map snd ?acc)"
      using vals by (simp only: snd_conv edge_value_append_array_fun)
  qed
qed

text \<open>With an edge hovered the spread copy of the map is built, right behind the old store.\<close>

lemma hover_path_copies_map:
  "hovered \<noteq> [] \<Longrightarrow>
   length h + 2 \<le> length (snd (edgesArray_store hovered edges links h))
   \<and> (\<exists>ces. lookup (snd (edgesArray_store hovered edges links h)) (length h) = Some (Rec ces))"
proof -
  assume ne: "hovered \<noteq> []"
  let ?h1 = "h @ [Rec (entries_of h edges)]"
  have step: "lookup g (length h) = Some (Rec c) \<Longrightarrow>
              length g \<le> length (hover_step_store edges (length h) links x g)
              \<and> (\<exists>c'. lookup (hover_step_store edges (length h) links x g) (length h)
                        = Some (Rec c'))" for g c x
    using mark_chain_store_grows [of g "length h" c edges]
    by (cases "links x") (simp_all add: hover_step_store_def del: mark_chain_store.simps)
  have all: "lookup g (length h) = Some (Rec c) \<Longrightarrow>
             length g \<le> length (fold (hover_step_store edges (length h) links) xs g)
             \<and> (\<exists>c'. lookup (fold (hover_step_store edges (length h) links) xs g) (length h)
                       = Some (Rec c'))" for g c xs
  proof (induction xs arbitrary: g c)
    case Nil
    then show ?case by simp
  next
    case (Cons x xs)
    from step [OF Cons.prems, of x] obtain c' where
      l: "length g \<le> length (hover_step_store edges (length h) links x g)" and
      r: "lookup (hover_step_store edges (length h) links x g) (length h) = Some (Rec c')"
      by blast
    from Cons.IH [OF r] l show ?case by auto
  qed
  have "lookup ?h1 (length h) = Some (Rec (entries_of h edges))"
    by (simp add: lookup_def)
  from all [OF this, of hovered] obtain c' where
    l: "length ?h1 \<le> length (fold (hover_step_store edges (length h) links) hovered ?h1)" and
    r: "lookup (fold (hover_step_store edges (length h) links) hovered ?h1) (length h)
          = Some (Rec c')"
    by blast
  have lt: "length h < length (fold (hover_step_store edges (length h) links) hovered ?h1)"
    using l by simp
  show ?thesis
    using ne l r lt
    by (simp add: edgesArray_store_def alloc_def Let_def lookup_def nth_append)
qed

text \<open>
  C6, as the specification states it: with no edge hovered the computation returns
  the edge map itself, and constructs nothing. It does not: \<^verbatim>\<open>Object.values(edges)\<close>
  is a new object. In the store below the record is at address 2; the result is
  address 3, which held nothing before the call and afterwards holds an array, not
  the record.
\<close>

theorem C6_returns_new_array_counterexample:
  "edgesArray_store [] 2 Map.empty sample_store = (3, sample_store @ [Arr [1]])
   \<and> fst (edgesArray_store [] 2 Map.empty sample_store) \<noteq> 2
   \<and> lookup sample_store (fst (edgesArray_store [] 2 Map.empty sample_store)) = None
   \<and> lookup (snd (edgesArray_store [] 2 Map.empty sample_store))
        (fst (edgesArray_store [] 2 Map.empty sample_store)) = Some (Arr [1])
   \<and> lookup sample_store 2 = Some (Rec [(''e1'', 1)])"
  by (simp add: edgesArray_store_def alloc_def entries_of_def lookup_def sample_store_def)

text \<open>
  C6, amended: for every edge map and every link table, with no edge hovered the
  computation returns a newly built array that holds the edge map's values, the
  very edge objects of the map (their addresses, none copied) in the map's key
  order. The array is the only object built: no copy of the map and no copy of an
  edge. The result is not the edge map itself; the edge map and every object that
  was there before are unchanged, and every edge reads as before.
\<close>

theorem C6_empty_hover_new_array:
  "lookup h edges = Some (Rec entries) \<Longrightarrow>
     edgesArray_store [] edges eventChainLinks h = (length h, h @ [Arr (map snd entries)])
   \<and> fst (edgesArray_store [] edges eventChainLinks h) \<noteq> edges
   \<and> lookup h (fst (edgesArray_store [] edges eventChainLinks h)) = None
   \<and> (\<forall>a. a < length h \<longrightarrow>
          lookup (snd (edgesArray_store [] edges eventChainLinks h)) a = lookup h a)
   \<and> entries_of (snd (edgesArray_store [] edges eventChainLinks h)) edges = entries
   \<and> (\<forall>a. edge_value (snd (edgesArray_store [] edges eventChainLinks h)) a = edge_value h a)"
proof -
  assume e: "lookup h edges = Some (Rec entries)"
  then have lt: "edges < length h"
    by (simp add: lookup_def split: if_splits)
  have r: "edgesArray_store [] edges eventChainLinks h = (length h, h @ [Arr (map snd entries)])"
    using e by (simp add: edgesArray_store_def alloc_def entries_of_def)
  have f: "\<forall>a. a < length h \<longrightarrow> lookup (h @ [Arr (map snd entries)]) a = lookup h a"
    by (simp add: lookup_def nth_append)
  have en: "entries_of (h @ [Arr (map snd entries)]) edges = entries"
    using e lt f by (simp add: entries_of_def)
  show ?thesis
    using lt f en by (simp add: r edge_value_append_array lookup_def)
qed

theorem C6_empty_hover_new_array_witness:
  "lookup sample_store 2 = Some (Rec [(''e1'', 1)])
   \<and> edgesArray_store [] 2 [''e1'' \<mapsto> \<lparr>preceding = [], following = []\<rparr>] sample_store
       = (3, sample_store @ [Arr [1]])
   \<and> edge_value (snd (edgesArray_store [] 2 [''e1'' \<mapsto> \<lparr>preceding = [], following = []\<rparr>]
                        sample_store)) 1
       = Some (sample_edge ''e1'' (Some (sample_data None)))"
proof -
  have a: "lookup sample_store 2 = Some (Rec [(''e1'', 1)])"
    by (simp add: lookup_def sample_store_def)
  note w = C6_empty_hover_new_array [OF a, of "[''e1'' \<mapsto> \<lparr>preceding = [], following = []\<rparr>]"]
  have v: "edge_value sample_store 1 = Some (sample_edge ''e1'' (Some (sample_data None)))"
    by (simp add: edge_value_def lookup_def sample_store_def sample_edge_def)
  have l: "length sample_store = 3"
    by (simp add: sample_store_def)
  show ?thesis
    using a w v l by (simp add: edge_value_append_array)
qed

section \<open>Properties of the selection handlers\<close>

lemma actions_of_append: "actions_of (xs @ ys) = actions_of xs @ actions_of ys"
  by (induction xs rule: actions_of.induct) auto

lemma actions_of_dispatches: "actions_of (map (\<lambda>i. Dispatch (f i)) xs) = map f xs"
  by (induction xs) auto

lemma select_loop_known:
  "list_all (known nodes) cs \<Longrightarrow>
   select_loop ty nodes cs = (concat (map (change_effects ty nodes) cs), None)"
  by (induction cs rule: select_loop.induct) (simp_all add: Let_def split: option.splits)

lemma select_loop_filter:
  "select_loop ty nodes (filter is_select cs) = select_loop ty nodes cs"
  by (induction cs rule: select_loop.induct) (simp_all add: Let_def split: option.splits)

lemma actions_change_effects:
  "known nodes c \<Longrightarrow> actions_of (change_effects ty nodes c) = change_action c"
  by (cases c) auto

lemma actions_concat:
  "list_all (known nodes) cs \<Longrightarrow>
   actions_of (concat (map (change_effects ty nodes) cs)) = concat (map change_action cs)"
  by (induction cs) (auto simp: actions_of_append actions_change_effects)

lemma events_not_issues: "suffix ''/events'' p \<Longrightarrow> \<not> suffix ''/issues'' p"
  by (auto simp: suffix_def)

text \<open>
  C3, as the specification states it: for an entry that becomes selected the action
  \<open>SelectResource\<close> is emitted first and the telemetry event after it. The handler
  does it the other way round: the capture comes first, the dispatch second.
\<close>

theorem C3_action_first_counterexample:
  "fst (onNodesChange last_type [''A'' \<mapsto> nodeA] [SelectChange ''A'' True])
     = [Capture ''graph_resource_selected'' [(''resource_type'', ''Secret'')],
        Dispatch (SelectResource ''A'' False)]
   \<and> fst (onNodesChange last_type [''A'' \<mapsto> nodeA] [SelectChange ''A'' True])
     \<noteq> [Dispatch (SelectResource ''A'' False),
         Capture ''graph_resource_selected'' [(''resource_type'', ''Secret'')]]"
  by (simp add: onNodesChange_def nodeA_def last_type_def)

text \<open>
  C3, amended: in a batch whose selection changes all name nodes of the node map,
  each selection change emits, in batch order, first the telemetry event
  (\<open>graph_resource_selected\<close> or \<open>graph_resource_deselected\<close>, carrying what
  \<^verbatim>\<open>typeIdFromResourceId\<close> gives for the node's resource id) and then the action
  (\<open>SelectResource\<close> with \<open>refitView = false\<close>, or \<open>DeselectResource\<close>); there is
  exactly one action per selection change, changes of other types and ids not in
  the batch emit nothing, and no error is raised. So the batch \<open>[{A, true}]\<close> followed
  by the batch \<open>[{A, false}]\<close> dispatches \<open>SelectResource A\<close> and then
  \<open>DeselectResource A\<close>, once each.
\<close>

theorem C3_selection_batch:
  "list_all (known nodes) nodeChanges \<Longrightarrow>
     onNodesChange typeIdFromResourceId nodes nodeChanges =
       (concat (map (change_effects typeIdFromResourceId nodes) nodeChanges), None)
   \<and> actions_of (fst (onNodesChange typeIdFromResourceId nodes nodeChanges)) =
       concat (map change_action nodeChanges)"
  by (simp add: onNodesChange_def select_loop_filter select_loop_known actions_concat)

theorem C3_selection_batch_witness:
  "list_all (known [''A'' \<mapsto> nodeA]) [SelectChange ''A'' True]
   \<and> list_all (known [''A'' \<mapsto> nodeA]) [OtherChange ''position'', SelectChange ''A'' False]
   \<and> onNodesChange last_type [''A'' \<mapsto> nodeA] [SelectChange ''A'' True]
       = ([Capture ''graph_resource_selected'' [(''resource_type'', ''Secret'')],
           Dispatch (SelectResource ''A'' False)], None)
   \<and> actions_of (fst (onNodesChange last_type [''A'' \<mapsto> nodeA] [SelectChange ''A'' True]))
      @ actions_of (fst (onNodesChange last_type [''A'' \<mapsto> nodeA]
                           [OtherChange ''position'', SelectChange ''A'' False]))
       = [SelectResource ''A'' False, DeselectResource ''A'']"
proof -
  have a: "list_all (known [''A'' \<mapsto> nodeA]) [SelectChange ''A'' True]" by simp
  have b: "list_all (known [''A'' \<mapsto> nodeA]) [OtherChange ''position'', SelectChange ''A'' False]"
    by simp
  show ?thesis
    using a b C3_selection_batch [OF a, of last_type] C3_selection_batch [OF b, of last_type]
    by (simp add: nodeA_def last_type_def)
qed

text \<open>
  C9: activating the issue badge of a node captures one telemetry event, then
  navigates to the issues view (\<open>../issues\<close> from a location ending in \<open>/events\<close>,
  \<open>./issues\<close> from any other location) unless the location already ends in
  \<open>/issues\<close>, in which case it does not navigate, and then dispatches exactly one
  \<open>SelectIssue\<close> per issue id of the node, in the order of the node's list.
\<close>

theorem C9_issue_badge:
  "selectResourceIssues typeIdFromResourceId pathname d =
     [Capture ''resource_node_issue_badge_clicked''
        [(''resource_type'', typeIdFromResourceId (data_id d))]]
     @ (if suffix ''/issues'' pathname then []
        else [Navigate (if suffix ''/events'' pathname then ''../issues'' else ''./issues'')])
     @ map (\<lambda>issueId. Dispatch (SelectIssue issueId False)) (resourceIssueIds d)
   \<and> actions_of (selectResourceIssues typeIdFromResourceId pathname d) =
       map (\<lambda>issueId. SelectIssue issueId False) (resourceIssueIds d)
   \<and> navigations_of (selectResourceIssues typeIdFromResourceId pathname d) =
       (if suffix ''/issues'' pathname then []
        else [if suffix ''/events'' pathname then ''../issues'' else ''./issues''])"
proof -
  have nav_none: "navigations_of (map (\<lambda>i. Dispatch (SelectIssue i False)) xs) = []" for xs
    by (induction xs) auto
  have e: "suffix ''/events'' pathname \<Longrightarrow> \<not> suffix ''/issues'' pathname"
    by (rule events_not_issues)
  show ?thesis
    using e
    by (auto simp: selectResourceIssues_def actions_of_dispatches nav_none)
qed

theorem C9_issue_badge_witness:
  "selectResourceIssues last_type ''/acct/1/events'' (node_data nodeA) =
     [Capture ''resource_node_issue_badge_clicked'' [(''resource_type'', ''Secret'')],
      Navigate ''../issues'',
      Dispatch (SelectIssue ''i1'' False), Dispatch (SelectIssue ''i2'' False)]
   \<and> navigations_of (selectResourceIssues last_type ''/acct/1/issues'' (node_data nodeA)) = []"
proof -
  have a: "suffix ''/events'' ''/acct/1/events''" by (simp add: suffix_to_prefix)
  have b: "\<not> suffix ''/issues'' ''/acct/1/events''" by (simp add: suffix_to_prefix)
  have c: "suffix ''/issues'' ''/acct/1/issues''" by (simp add: suffix_to_prefix)
  note w1 = C9_issue_badge [of last_type "''/acct/1/events''" "node_data nodeA", THEN conjunct1]
  note w2 = C9_issue_badge [of last_type "''/acct/1/issues''" "node_data nodeA",
              THEN conjunct2, THEN conjunct2]
  show ?thesis
    using w1 w2 a b c by (simp add: nodeA_def last_type_def)
qed

end
